theory Spec2Isabelle
  imports Main "HOL-Library.Word"
begin

section \<open>JavaScript strings\<close>

text \<open>
  A JavaScript string is a sequence of UTF-16 code units: \<open>length\<close>, \<open>slice\<close> and the
  regular expressions of the source all count code units. A string is therefore a list of
  code unit values; \<open>ustr\<close> embeds an ASCII literal.
\<close>

type_synonym jsstring = "nat list"

definition ustr :: "string \<Rightarrow> jsstring" where
  "ustr s = map of_char s"

text \<open>
  The characters matched by \<open>\s\<close> and stripped by \<open>String.prototype.trim\<close>: ECMAScript's
  WhiteSpace and LineTerminator code points (both operations use the same set).
\<close>

definition is_ws :: "nat \<Rightarrow> bool" where
  "is_ws c \<longleftrightarrow>
     c \<in> {9, 10, 11, 12, 13, 32, 160, 5760, 8232, 8233, 8239, 8287, 12288, 65279}
     \<or> (8192 \<le> c \<and> c \<le> 8202)"

text \<open>\<open>s.trim()\<close>.\<close>

definition js_trim :: "jsstring \<Rightarrow> jsstring" where
  "js_trim s = rev (dropWhile is_ws (rev (dropWhile is_ws s)))"

text \<open>\<open>s.replace(/\s+/g, ' ')\<close>: every maximal run of whitespace becomes one space.\<close>

function collapse_ws :: "jsstring \<Rightarrow> jsstring" where
  "collapse_ws [] = []"
| "collapse_ws (c # cs) =
     (if is_ws c then 32 # collapse_ws (dropWhile is_ws cs) else c # collapse_ws cs)"
  by pat_completeness auto
termination
  by (relation "measure length") (auto simp: length_dropWhile_le less_Suc_eq_le)

text \<open>
  \<open>s.slice(0, e)\<close> for an integer \<open>e\<close>: a negative end counts from the end of the string,
  and both bounds are clamped to the string.
\<close>

definition js_slice0 :: "jsstring \<Rightarrow> int \<Rightarrow> jsstring" where
  "js_slice0 s e = (if e < 0 then take (nat (int (length s) + e)) s else take (nat e) s)"

text \<open>The ellipsis character U+2026, one code unit.\<close>

definition ellipsis :: nat where
  "ellipsis = 8230"

section \<open>JavaScript values\<close>

text \<open>
  A raw feed item is whatever the feed parser hands over: the model covers \<open>undefined\<close>,
  \<open>null\<close>, booleans, the integers from \<open>-2^53\<close> to \<open>2^53 - 1\<close>, strings, arrays, plain
  data objects (an association list of own properties) and function values (which only
  arise as inherited methods, see \<open>get_prop\<close>). A number is a 54-bit word read as a signed
  integer: these are the integers that a double holds exactly and that \<open>String\<close> prints
  digit by digit (it rounds the digits of a larger integer, and writes an exponent from
  \<open>1e21\<close> on). Other numbers, \<open>NaN\<close>, symbols and objects with accessors or a \<open>toString\<close>
  of their own are outside the model.
\<close>

datatype jsval =
    JUndefined
  | JNull
  | JBool bool
  | JNum "54 word"
  | JStr jsstring
  | JFun
  | JArr "jsval list"
  | JObj "(jsstring \<times> jsval) list"

text \<open>ToBoolean: what \<open>!v\<close>, \<open>v || w\<close> and \<open>v ? a : b\<close> test.\<close>

fun truthy :: "jsval \<Rightarrow> bool" where
  "truthy JUndefined = False"
| "truthy JNull = False"
| "truthy (JBool b) = b"
| "truthy (JNum n) = (n \<noteq> 0)"
| "truthy (JStr s) = (s \<noteq> [])"
| "truthy JFun = True"
| "truthy (JArr xs) = True"
| "truthy (JObj kvs) = True"

text \<open>\<open>a || b\<close>.\<close>

definition js_or :: "jsval \<Rightarrow> jsval \<Rightarrow> jsval" where
  "js_or a b = (if truthy a then a else b)"

text \<open>
  Property read \<open>v.k\<close> on a value that is neither \<open>undefined\<close> nor \<open>null\<close>, for the
  property names the source reads (\<open>title\<close>, \<open>link\<close>, \<open>guid\<close>, \<open>isoDate\<close>, \<open>pubDate\<close>,
  \<open>contentSnippet\<close>, \<open>summary\<close>, \<open>description\<close>, \<open>content\<close>, \<open>content:encoded\<close>,
  \<open>enclosure\<close>, \<open>mediaContent\<close>, \<open>mediaThumbnail\<close>, \<open>url\<close>). An object answers with its
  own property. Of the prototypes of the other values only \<open>String.prototype\<close> has one of
  these names: \<open>link\<close>, a method.
\<close>

fun get_prop :: "jsval \<Rightarrow> jsstring \<Rightarrow> jsval" where
  "get_prop (JObj kvs) k = (case map_of kvs k of Some v \<Rightarrow> v | None \<Rightarrow> JUndefined)"
| "get_prop (JStr s) k = (if k = ustr ''link'' then JFun else JUndefined)"
| "get_prop v k = JUndefined"

text \<open>Optional chaining \<open>v?.k\<close>.\<close>

fun opt_prop :: "jsval \<Rightarrow> jsstring \<Rightarrow> jsval" where
  "opt_prop JUndefined k = JUndefined"
| "opt_prop JNull k = JUndefined"
| "opt_prop v k = get_prop v k"

text \<open>Decimal digits of a natural number.\<close>

fun digits :: "nat \<Rightarrow> jsstring" where
  "digits n = (if n < 10 then [48 + n] else digits (n div 10) @ [48 + n mod 10])"

declare digits.simps [simp del]

text \<open>\<open>xs.join(',')\<close> on strings already converted.\<close>

fun js_join :: "jsstring list \<Rightarrow> jsstring" where
  "js_join [] = []"
| "js_join [s] = s"
| "js_join (s # t # ss) = s @ 44 # js_join (t # ss)"

text \<open>
  \<open>String(v)\<close>. An array joins its elements with commas, \<open>undefined\<close> and \<open>null\<close>
  elements contributing the empty string. The text of a native function is fixed only up
  to white space by the language; no path of the source converts one.
\<close>

fun js_String :: "jsval \<Rightarrow> jsstring" where
  "js_String JUndefined = ustr ''undefined''"
| "js_String JNull = ustr ''null''"
| "js_String (JBool b) = (if b then ustr ''true'' else ustr ''false'')"
| "js_String (JNum n) =
     (if sint n < 0 then 45 # digits (nat (- sint n)) else digits (nat (sint n)))"
| "js_String (JStr s) = s"
| "js_String JFun = ustr ''function link() { [native code] }''"
| "js_String (JArr xs) =
     js_join (map (\<lambda>x. if x = JUndefined \<or> x = JNull then [] else js_String x) xs)"
| "js_String (JObj kvs) = ustr ''[object Object]''"

section \<open>The excerpt builder\<close>

text \<open>
  \<^verbatim>\<open>
  function makeExcerpt(str, max = 220) {
    if (!str) return null;
    const s = String(str).replace(/\s+/g, ' ').trim();
    if (s.length <= max) return s;
    return s.slice(0, max - 1).trim() + '...';     // U+2026
  }
  \<close>
  The result is \<open>null\<close> (\<open>None\<close>) or a string; \<open>max\<close> is an integer.
\<close>

definition makeExcerpt :: "jsval \<Rightarrow> int \<Rightarrow> jsstring option" where
  "makeExcerpt str mx =
     (if \<not> truthy str then None
      else let s = js_trim (collapse_ws (js_String str)) in
           if int (length s) \<le> mx then Some s
           else Some (js_trim (js_slice0 s (mx - 1)) @ [ellipsis]))"

section \<open>Dates, digests and the sanitizer\<close>

text \<open>
  A \<open>Date\<close> object is its time value in milliseconds; \<open>None\<close> is the time value \<open>NaN\<close>
  of an Invalid Date.
\<close>

datatype jsdate = JDate "int option"

text \<open>
  What the runtime and the libraries provide: \<open>Date.parse\<close> (its answer outside the ISO
  format is left to the engine), the SHA-1 digest of a string as \<open>crypto\<close> computes it
  (160 bits), and \<open>sanitizeHtml\<close> applied with the options object of \<open>sanitizeContent\<close>.
\<close>

record platform =
  Date_parse :: "jsstring \<Rightarrow> int option"
  sha1_digest :: "jsstring \<Rightarrow> 160 word"
  sanitizeHtml :: "jsstring \<Rightarrow> jsstring"

text \<open>
  \<open>new Date(v)\<close>: a string is parsed; a number is clipped to the range of time values
  (8.64e15 ms either side of the epoch); a boolean and \<open>null\<close> convert to a number;
  \<open>undefined\<close> gives \<open>NaN\<close>; any other value is first turned into a string.
\<close>

fun new_Date :: "platform \<Rightarrow> jsval \<Rightarrow> jsdate" where
  "new_Date P (JStr s) = JDate (Date_parse P s)"
| "new_Date P (JNum n) =
     JDate (if \<bar>sint n\<bar> \<le> 8640000000000000 then Some (sint n) else None)"
| "new_Date P (JBool b) = JDate (Some (if b then 1 else 0))"
| "new_Date P JNull = JDate (Some 0)"
| "new_Date P JUndefined = JDate None"
| "new_Date P v = JDate (Date_parse P (js_String v))"

text \<open>\<open>digest('hex')\<close>: the 160 bits as 40 lower-case hexadecimal digits, high nibble first.\<close>

definition hex_digit :: "nat \<Rightarrow> nat" where
  "hex_digit d = (if d < 10 then 48 + d else 87 + d)"

definition digest_hex :: "160 word \<Rightarrow> jsstring" where
  "digest_hex w = map (\<lambda>i. hex_digit (unat (take_bit 4 (drop_bit (4 * (39 - i)) w)))) [0..<40]"

text \<open>
  \<^verbatim>\<open>
  function sha1(str) {
    return crypto.createHash('sha1').update(String(str)).digest('hex');
  }
  \<close>
\<close>

definition sha1 :: "platform \<Rightarrow> jsval \<Rightarrow> jsstring" where
  "sha1 P str = digest_hex (sha1_digest P (js_String str))"

text \<open>
  \<^verbatim>\<open>
  function sanitizeContent(html) {
    if (!html) return null;
    return sanitizeHtml(String(html), { ... });
  }
  \<close>
\<close>

definition sanitizeContent :: "platform \<Rightarrow> jsval \<Rightarrow> jsstring option" where
  "sanitizeContent P html =
     (if \<not> truthy html then None else Some (sanitizeHtml P (js_String html)))"

section \<open>Image selection\<close>

text \<open>
  The pattern \<^verbatim>\<open>/<img[^>]+src="([^"]+)"/i\<close>, as a backtracking matcher. Under the flag
  \<open>i\<close> (without \<open>u\<close>) a code unit above 127 never folds onto an ASCII one, so the
  comparison folds the ASCII letters only.
\<close>

definition lower :: "nat \<Rightarrow> nat" where
  "lower c = (if 65 \<le> c \<and> c \<le> 90 then c + 32 else c)"

text \<open>The lower-case literal \<open>p\<close> matches at the head of \<open>s\<close>, ignoring case.\<close>

definition ci_prefix :: "jsstring \<Rightarrow> jsstring \<Rightarrow> bool" where
  "ci_prefix p s \<longleftrightarrow> length p \<le> length s \<and> map lower (take (length p) s) = p"

text \<open>
  \<^verbatim>\<open>([^"]+)"\<close> at the head of \<open>s\<close>: the group is the maximal run without a quote (a
  shorter run is followed by a character that is not a quote), non-empty and followed by
  a quote.
\<close>

definition src_value :: "jsstring \<Rightarrow> jsstring option" where
  "src_value s =
     (let g = takeWhile (\<lambda>c. c \<noteq> 34) s
      in if g \<noteq> [] \<and> length g < length s then Some g else None)"

text \<open>
  \<^verbatim>\<open>[^>]*src="([^"]+)"\<close> at the head of \<open>s\<close>. The star is greedy: the longest run is
  tried first, and the matcher backs off one character at a time.
\<close>

fun img_tail :: "jsstring \<Rightarrow> jsstring option" where
  "img_tail [] = None"
| "img_tail (c # cs) =
     (case (if c \<noteq> 62 then img_tail cs else None) of
        Some g \<Rightarrow> Some g
      | None \<Rightarrow>
          if ci_prefix (ustr ''src='' @ [34]) (c # cs) then src_value (drop 5 (c # cs))
          else None)"

text \<open>The whole pattern at the head of \<open>s\<close>; \<^verbatim>\<open>[^>]+\<close> takes at least one character.\<close>

definition img_match_here :: "jsstring \<Rightarrow> jsstring option" where
  "img_match_here s =
     (if ci_prefix (ustr ''<img'') s then
        (case drop 4 s of
           [] \<Rightarrow> None
         | c # cs \<Rightarrow> if c \<noteq> 62 then img_tail cs else None)
      else None)"

text \<open>\<open>String(html).match(re)\<close>: the leftmost position where the pattern matches; its group 1.\<close>

fun img_search :: "jsstring \<Rightarrow> jsstring option" where
  "img_search [] = None"
| "img_search (c # cs) =
     (case img_match_here (c # cs) of Some g \<Rightarrow> Some g | None \<Rightarrow> img_search cs)"

text \<open>\<open>typeof v === 'string'\<close>.\<close>

fun is_string :: "jsval \<Rightarrow> bool" where
  "is_string (JStr s) = True"
| "is_string v = False"

text \<open>
  \<^verbatim>\<open>
  function pickImage(item) {
    const encl = item?.enclosure;
    if (typeof encl === 'string') return encl;
    if (encl?.url) return encl.url;
    const mContent = item?.mediaContent;
    if (typeof mContent === 'string') return mContent;
    if (mContent?.url) return mContent.url;
    const mThumb = item?.mediaThumbnail;
    if (typeof mThumb === 'string') return mThumb;
    if (mThumb?.url) return mThumb.url;
    const html = item?.['content:encoded'] || item?.content;
    if (html) {
      const m = String(html).match(/<img[^>]+src="([^"]+)"/i);
      if (m && m[1]) return m[1];
    }
    return null;
  }
  \<close>
\<close>

definition pickImage :: "jsval \<Rightarrow> jsval" where
  "pickImage item =
     (let encl = opt_prop item (ustr ''enclosure'') in
      if is_string encl then encl
      else if truthy (opt_prop encl (ustr ''url'')) then opt_prop encl (ustr ''url'')
      else
        let mContent = opt_prop item (ustr ''mediaContent'') in
        if is_string mContent then mContent
        else if truthy (opt_prop mContent (ustr ''url'')) then opt_prop mContent (ustr ''url'')
        else
          let mThumb = opt_prop item (ustr ''mediaThumbnail'') in
          if is_string mThumb then mThumb
          else if truthy (opt_prop mThumb (ustr ''url'')) then opt_prop mThumb (ustr ''url'')
          else
            let html = js_or (opt_prop item (ustr ''content:encoded''))
                             (opt_prop item (ustr ''content'')) in
            if truthy html then
              (case img_search (js_String html) of
                 Some g \<Rightarrow> if g \<noteq> [] then JStr g else JNull
               | None \<Rightarrow> JNull)
            else JNull)"

section \<open>The normalizer\<close>

text \<open>
  An exception is a value: an \<open>Error\<close> with its message, or the \<open>TypeError\<close> the engine
  raises when a value that is not callable is called (its message is the engine's).
\<close>

datatype jserror = Error jsstring | TypeError

text \<open>The method call \<open>v.trim()\<close>: only a string has the method.\<close>

fun call_trim :: "jsval \<Rightarrow> jserror + jsstring" where
  "call_trim (JStr s) = Inr (js_trim s)"
| "call_trim v = Inl TypeError"

record article =
  title :: jsstring
  canonical_url :: "jsstring option"
  url_hash :: "jsstring option"
  published_at :: "jsdate option"
  image_url :: jsval
  excerpt :: "jsstring option"
  content_html :: "jsstring option"

text \<open>
  \<^verbatim>\<open>
  function normalizeItem(item) {
    const title = (item?.title || '').trim();
    const canonical_url = (item?.link || item?.guid || '').trim() || null;
    const publishedRaw = item?.isoDate || item?.pubDate || null;
    const published_at = publishedRaw ? new Date(publishedRaw) : null;
    const excerptSource = item?.contentSnippet || item?.summary || item?.description
                          || item?.content || null;
    const excerpt = makeExcerpt(excerptSource, 220);
    const rawHtml = item?.['content:encoded'] || item?.content || null;
    const content_html = sanitizeContent(rawHtml);
    const image_url = pickImage(item);
    const url_hash = canonical_url ? sha1(canonical_url) : null;
    return { title, canonical_url, url_hash, published_at, image_url, excerpt, content_html };
  }
  \<close>
  The two \<open>trim\<close> calls are the statements that can throw; they come first, in this order.
\<close>

definition normalizeItem :: "platform \<Rightarrow> jsval \<Rightarrow> jserror + article" where
  "normalizeItem P item =
     (case call_trim (js_or (opt_prop item (ustr ''title'')) (JStr [])) of
        Inl e \<Rightarrow> Inl e
      | Inr t \<Rightarrow>
          (case call_trim (js_or (js_or (opt_prop item (ustr ''link''))
                                        (opt_prop item (ustr ''guid''))) (JStr [])) of
             Inl e \<Rightarrow> Inl e
           | Inr u \<Rightarrow>
               let curl = (if u \<noteq> [] then Some u else None);
                   publishedRaw = js_or (js_or (opt_prop item (ustr ''isoDate''))
                                               (opt_prop item (ustr ''pubDate''))) JNull;
                   excerptSource =
                     js_or (js_or (js_or (js_or (opt_prop item (ustr ''contentSnippet''))
                                                (opt_prop item (ustr ''summary'')))
                                         (opt_prop item (ustr ''description'')))
                                  (opt_prop item (ustr ''content''))) JNull;
                   rawHtml = js_or (js_or (opt_prop item (ustr ''content:encoded''))
                                          (opt_prop item (ustr ''content''))) JNull
               in Inr \<lparr> title = t,
                         canonical_url = curl,
                         url_hash = (case curl of Some c \<Rightarrow> Some (sha1 P (JStr c)) | None \<Rightarrow> None),
                         published_at =
                           (if truthy publishedRaw then Some (new_Date P publishedRaw) else None),
                         image_url = pickImage item,
                         excerpt = makeExcerpt excerptSource 220,
                         content_html = sanitizeContent P rawHtml \<rparr>))"

section \<open>The feed fetcher\<close>

text \<open>
  The document \<open>parser.parseURL\<close> resolves with: its title, and its \<open>items\<close> array when it
  has one.
\<close>

record feed =
  feed_title :: jsval
  items :: "jsval list option"

text \<open>
  The row handed to \<open>pool.query\<close>: the parameter array of the \<open>INSERT\<close> statement, in its
  order.
\<close>

record row =
  row_title :: jsstring
  row_canonical_url :: jsstring
  row_url_hash :: jsstring
  row_excerpt :: "jsstring option"
  row_content_html :: "jsstring option"
  row_image_url :: jsval
  row_published_at :: "jsdate option"

text \<open>
  The effects of a run, in the order they happen: a timer of so many milliseconds, a
  request for a feed, a statement sent to the store. (Console output is not modelled.)
\<close>

datatype event = Sleep nat | ParseURL jsstring | Query row

text \<open>
  The world a run acts on: how many feed requests were made, the effects so far, and the
  state of the store.
\<close>

record 'db world =
  requests :: nat
  trace :: "event list"
  db :: 'db

text \<open>
  The two collaborators. \<open>parseURL u k\<close> is how the network and the parser answer the
  request number \<open>k\<close> of the run (counted from 0) when it asks for \<open>u\<close>: a rejection with an
  \<open>Error\<close>, or a document. \<open>pool_query d r\<close> is how the store in state \<open>d\<close> answers the
  \<open>INSERT ... ON DUPLICATE KEY UPDATE\<close> of row \<open>r\<close>: a rejection, or \<open>affectedRows\<close>, and its
  next state.
\<close>

record 'db ports =
  parseURL :: "jsstring \<Rightarrow> nat \<Rightarrow> jserror + feed"
  pool_query :: "'db \<Rightarrow> row \<Rightarrow> (jserror + nat) \<times> 'db"

text \<open>
  \<^verbatim>\<open>
  async function parseWithRetry(url, attempts = 3) {
    let lastErr;
    for (let i = 1; i <= attempts; i++) {
      try {
        if (i > 1) {
          const backoff = 1000 * i;
          await new Promise(r => setTimeout(r, backoff));
        }
        return await parser.parseURL(url);
      } catch (err) {
        lastErr = err;
        if (i === attempts) throw err;
      }
    }
    throw lastErr;
  }
  \<close>
  The loop from iteration \<open>i\<close> on. What is thrown is an error, or \<open>undefined\<close> (\<open>None\<close>) when
  \<open>lastErr\<close> was never assigned.
\<close>

function parseWithRetry_from ::
  "'db ports \<Rightarrow> jsstring \<Rightarrow> nat \<Rightarrow> nat \<Rightarrow> jserror option \<Rightarrow> 'db world
     \<Rightarrow> (jserror option + feed) \<times> 'db world" where
  "parseWithRetry_from E url attempts i lastErr w =
     (if i \<le> attempts then
        let w1 = (if 1 < i then w\<lparr>trace := trace w @ [Sleep (1000 * i)]\<rparr> else w);
            w2 = w1\<lparr>requests := Suc (requests w1), trace := trace w1 @ [ParseURL url]\<rparr>
        in (case parseURL E url (requests w1) of
              Inr f \<Rightarrow> (Inr f, w2)
            | Inl err \<Rightarrow>
                if i = attempts then (Inl (Some err), w2)
                else parseWithRetry_from E url attempts (Suc i) (Some err) w2)
      else (Inl lastErr, w))"
  by pat_completeness auto
termination
  by (relation "measure (\<lambda>(E, url, attempts, i, lastErr, w). Suc attempts - i)") auto

declare parseWithRetry_from.simps [simp del]

definition parseWithRetry ::
  "'db ports \<Rightarrow> jsstring \<Rightarrow> nat \<Rightarrow> 'db world \<Rightarrow> (jserror option + feed) \<times> 'db world" where
  "parseWithRetry E url attempts w = parseWithRetry_from E url attempts 1 None w"

section \<open>The ingestion runner\<close>

text \<open>Truthiness of a value that is a string or \<open>null\<close>.\<close>

fun str_truthy :: "jsstring option \<Rightarrow> bool" where
  "str_truthy None = False"
| "str_truthy (Some s) = (s \<noteq> [])"

text \<open>The object \<open>insertArticle\<close> resolves with.\<close>

record ins_result =
  inserted :: bool
  duplicated :: bool
  reason :: "jsstring option"

text \<open>
  The parameter array of \<open>insertArticle\<close>, for an article whose URL is \<open>u\<close> and whose hash is
  \<open>h\<close>: \<open>a.excerpt || null\<close>, \<open>a.content_html || null\<close>, \<open>a.image_url || null\<close>, and
  \<open>a.published_at ? new Date(a.published_at) : null\<close> (a \<open>Date\<close> is truthy, and copying one
  keeps its time value).
\<close>

definition article_params :: "article \<Rightarrow> jsstring \<Rightarrow> jsstring \<Rightarrow> row" where
  "article_params a u h =
     \<lparr> row_title = title a,
       row_canonical_url = u,
       row_url_hash = h,
       row_excerpt = (if str_truthy (excerpt a) then excerpt a else None),
       row_content_html = (if str_truthy (content_html a) then content_html a else None),
       row_image_url = js_or (image_url a) JNull,
       row_published_at = published_at a \<rparr>"

text \<open>
  \<^verbatim>\<open>
  async function insertArticle(pool, a) {
    if (!a.title || !a.canonical_url || !a.url_hash)
      return { inserted: false, duplicated: false, reason: 'missing key fields' };
    const params = [ ... ];
    const [result] = await pool.query(sql, params);
    if (result.affectedRows === 1) return { inserted: true, duplicated: false };
    if (result.affectedRows === 2) return { inserted: false, duplicated: true };
    return { inserted: false, duplicated: false,
             reason: 'unexpected affectedRows=' + result.affectedRows };
  }
  \<close>
\<close>

definition insertArticle ::
  "'db ports \<Rightarrow> article \<Rightarrow> 'db world \<Rightarrow> (jserror + ins_result) \<times> 'db world" where
  "insertArticle E a w =
     (case (canonical_url a, url_hash a) of
        (Some u, Some h) \<Rightarrow>
          if title a = [] \<or> u = [] \<or> h = [] then
            (Inr \<lparr>inserted = False, duplicated = False,
                  reason = Some (ustr ''missing key fields'')\<rparr>, w)
          else
            (case pool_query E (db w) (article_params a u h) of
               (res, d) \<Rightarrow>
                 let w' = w\<lparr>trace := trace w @ [Query (article_params a u h)], db := d\<rparr>
                 in (case res of
                       Inl e \<Rightarrow> (Inl e, w')
                     | Inr k \<Rightarrow>
                         if k = 1 then
                           (Inr \<lparr>inserted = True, duplicated = False, reason = None\<rparr>, w')
                         else if k = 2 then
                           (Inr \<lparr>inserted = False, duplicated = True, reason = None\<rparr>, w')
                         else
                           (Inr \<lparr>inserted = False, duplicated = False,
                                 reason = Some (ustr ''unexpected affectedRows='' @ digits k)\<rparr>,
                            w')))
      | _ \<Rightarrow>
          (Inr \<lparr>inserted = False, duplicated = False,
                reason = Some (ustr ''missing key fields'')\<rparr>, w))"

text \<open>The counters of one feed, and of the run.\<close>

record tally =
  n_inserted :: nat
  n_duplicated :: nat
  n_skipped :: nat

definition count_inserted :: "tally \<Rightarrow> tally" where
  "count_inserted t = t\<lparr>n_inserted := Suc (n_inserted t)\<rparr>"

definition count_duplicated :: "tally \<Rightarrow> tally" where
  "count_duplicated t = t\<lparr>n_duplicated := Suc (n_duplicated t)\<rparr>"

definition count_skipped :: "tally \<Rightarrow> tally" where
  "count_skipped t = t\<lparr>n_skipped := Suc (n_skipped t)\<rparr>"

text \<open>
  The body of the loop over the items of a feed:
  \<^verbatim>\<open>
      const n = normalizeItem(raw);
      if (!n.canonical_url || !n.url_hash || !n.title) { skipped++; continue; }
      try {
        const res = await insertArticle(pool, n);
        if (res.inserted) inserted++;
        else if (res.duplicated) duplicated++;
        else skipped++;
      } catch (e) {
        skipped++;
      }
  \<close>
  The call of \<open>normalizeItem\<close> stands outside the inner \<open>try\<close>: what it throws leaves the
  loop.
\<close>

definition saveFeed_item ::
  "platform \<Rightarrow> 'db ports \<Rightarrow> jsval \<Rightarrow> tally \<Rightarrow> 'db world \<Rightarrow> (jserror + tally) \<times> 'db world" where
  "saveFeed_item P E raw t w =
     (case normalizeItem P raw of
        Inl e \<Rightarrow> (Inl e, w)
      | Inr n \<Rightarrow>
          if \<not> str_truthy (canonical_url n) \<or> \<not> str_truthy (url_hash n) \<or> title n = [] then
            (Inr (count_skipped t), w)
          else
            (case insertArticle E n w of
               (Inr res, w') \<Rightarrow>
                 if inserted res then (Inr (count_inserted t), w')
                 else if duplicated res then (Inr (count_duplicated t), w')
                 else (Inr (count_skipped t), w')
             | (Inl e, w') \<Rightarrow> (Inr (count_skipped t), w')))"

text \<open>\<open>for (const raw of items) { ... }\<close>\<close>

fun saveFeed_loop ::
  "platform \<Rightarrow> 'db ports \<Rightarrow> jsval list \<Rightarrow> tally \<Rightarrow> 'db world \<Rightarrow> (jserror + tally) \<times> 'db world" where
  "saveFeed_loop P E [] t w = (Inr t, w)"
| "saveFeed_loop P E (raw # rest) t w =
     (case saveFeed_item P E raw t w of
        (Inl e, w') \<Rightarrow> (Inl e, w')
      | (Inr t', w') \<Rightarrow> saveFeed_loop P E rest t' w')"

text \<open>
  What \<open>saveFeed\<close> resolves with: the counters, and the error of the feed when there is one
  (the source keeps its \<open>message\<close>).
\<close>

record outcome = tally +
  feed_error :: "jserror option"

text \<open>
  The handler of the outer \<open>try\<close>:
  \<^verbatim>\<open>
    } catch (err) {
      console.error('Errore nel feed:', err.message);
      return { inserted: 0, duplicated: 0, skipped: 0, error: err.message };
    }
  \<close>
  Reading \<open>message\<close> from \<open>undefined\<close> throws in its turn.
\<close>

fun saveFeed_catch :: "jserror option \<Rightarrow> jserror + outcome" where
  "saveFeed_catch None = Inl TypeError"
| "saveFeed_catch (Some err) =
     Inr \<lparr>n_inserted = 0, n_duplicated = 0, n_skipped = 0, feed_error = Some err\<rparr>"

text \<open>
  \<^verbatim>\<open>
  async function saveFeed(pool, url) {
    try {
      const feed = await parseWithRetry(url, 3);
      const items = feed.items || [];
      let inserted = 0, duplicated = 0, skipped = 0;
      for (const raw of items) { ... }
      return { inserted, duplicated, skipped };
    } catch (err) { ... }
  }
  \<close>
\<close>

definition saveFeed ::
  "platform \<Rightarrow> 'db ports \<Rightarrow> jsstring \<Rightarrow> 'db world \<Rightarrow> (jserror + outcome) \<times> 'db world" where
  "saveFeed P E url w =
     (case parseWithRetry E url 3 w of
        (Inl err, w1) \<Rightarrow> (saveFeed_catch err, w1)
      | (Inr f, w1) \<Rightarrow>
          (case saveFeed_loop P E (case items f of Some xs \<Rightarrow> xs | None \<Rightarrow> [])
                  \<lparr>n_inserted = 0, n_duplicated = 0, n_skipped = 0\<rparr> w1 of
             (Inl e, w2) \<Rightarrow> (saveFeed_catch (Some e), w2)
           | (Inr t, w2) \<Rightarrow>
               (Inr \<lparr>n_inserted = n_inserted t, n_duplicated = n_duplicated t,
                     n_skipped = n_skipped t, feed_error = None\<rparr>, w2)))"

text \<open>
  \<open>const FEEDS = [process.env.FEED_1, process.env.FEED_2, process.env.FEED_3].filter(Boolean)\<close>:
  an environment variable is a string or missing.
\<close>

definition FEEDS :: "jsstring option \<Rightarrow> jsstring option \<Rightarrow> jsstring option \<Rightarrow> jsstring list" where
  "FEEDS f1 f2 f3 = concat (map (\<lambda>v. case v of Some s \<Rightarrow> if s \<noteq> [] then [s] else [] | None \<Rightarrow> [])
                            [f1, f2, f3])"

text \<open>
  \<^verbatim>\<open>
      for (const url of FEEDS) {
        const { inserted, duplicated, skipped } = await saveFeed(pool, url);
        totalInserted += inserted;
        totalDuplicated += duplicated;
        totalSkipped += skipped;
      }
  \<close>
\<close>

fun main_loop ::
  "platform \<Rightarrow> 'db ports \<Rightarrow> jsstring list \<Rightarrow> tally \<Rightarrow> 'db world \<Rightarrow> (jserror + tally) \<times> 'db world" where
  "main_loop P E [] tot w = (Inr tot, w)"
| "main_loop P E (url # rest) tot w =
     (case saveFeed P E url w of
        (Inl e, w') \<Rightarrow> (Inl e, w')
      | (Inr r, w') \<Rightarrow>
          main_loop P E rest
            \<lparr>n_inserted = n_inserted tot + n_inserted r,
             n_duplicated = n_duplicated tot + n_duplicated r,
             n_skipped = n_skipped tot + n_skipped r\<rparr> w')"

text \<open>
  How a run ends: \<open>process.exit(1)\<close> when no feed is configured, the totals, or the handler
  of \<open>main\<close> (\<open>Errore generale\<close>) with what was thrown.
\<close>

datatype run_end = Exit1 | Totals tally | GeneralError jserror

text \<open>
  \<^verbatim>\<open>
  (async function main() {
    if (FEEDS.length === 0) { ...; process.exit(1); }
    let pool;
    try {
      pool = await createPool();
      let totalInserted = 0, totalDuplicated = 0, totalSkipped = 0;
      for (const url of FEEDS) { ... }
      console.log('Totale:', { ... });
    } catch (e) {
      console.error('Errore generale:', e.message);
    } finally {
      if (pool && pool.end) await pool.end();
    }
  })();
  \<close>
  Creating and closing the pool is taken to succeed.
\<close>

definition main ::
  "platform \<Rightarrow> 'db ports \<Rightarrow> jsstring list \<Rightarrow> 'db world \<Rightarrow> run_end \<times> 'db world" where
  "main P E feeds w =
     (if feeds = [] then (Exit1, w)
      else (case main_loop P E feeds \<lparr>n_inserted = 0, n_duplicated = 0, n_skipped = 0\<rparr> w of
              (Inl e, w') \<Rightarrow> (GeneralError e, w')
            | (Inr tot, w') \<Rightarrow> (Totals tot, w')))"

section \<open>Notions used in the statements\<close>

text \<open>A value on which \<open>(v || '').trim()\<close> does not throw: a falsy value, or a string.\<close>

definition trimmable :: "jsval \<Rightarrow> bool" where
  "trimmable v \<longleftrightarrow> \<not> truthy v \<or> is_string v"

text \<open>
  A string in which every whitespace character is a space and is followed by a character
  that is not whitespace (or by nothing): what \<open>replace(/\s+/g, ' ')\<close> leaves.
\<close>

fun collapsed :: "jsstring \<Rightarrow> bool" where
  "collapsed [] = True"
| "collapsed [c] = (is_ws c \<longrightarrow> c = 32)"
| "collapsed (c # d # cs) = ((is_ws c \<longrightarrow> c = 32 \<and> \<not> is_ws d) \<and> collapsed (d # cs))"

text \<open>
  The excerpt as the specification words it: the words of a text (its maximal runs of
  characters that are not whitespace), joined by single spaces; and a text with its
  trailing whitespace removed.
\<close>

function ws_words :: "jsstring \<Rightarrow> jsstring list" where
  "ws_words [] = []"
| "ws_words (c # cs) =
     (if is_ws c then ws_words cs
      else (c # takeWhile (\<lambda>x. \<not> is_ws x) cs) # ws_words (dropWhile (\<lambda>x. \<not> is_ws x) cs))"
  by pat_completeness auto
termination
  by (relation "measure length") (auto simp: length_dropWhile_le less_Suc_eq_le)

fun join_spaces :: "jsstring list \<Rightarrow> jsstring" where
  "join_spaces [] = []"
| "join_spaces [w] = w"
| "join_spaces (w # v # ws) = w @ 32 # join_spaces (v # ws)"

definition rtrim :: "jsstring \<Rightarrow> jsstring" where
  "rtrim s = rev (dropWhile is_ws (rev s))"


text \<open>
  What each of the first three steps of the image chain reads from \<open>enclosure\<close>,
  \<open>mediaContent\<close> and \<open>mediaThumbnail\<close>: the value itself when it is a string, else its
  \<open>url\<close> member when that is truthy.
\<close>

definition image_ref :: "jsval \<Rightarrow> jsval option" where
  "image_ref v =
     (if is_string v then Some v
      else if truthy (opt_prop v (ustr ''url'')) then Some (opt_prop v (ustr ''url''))
      else None)"

text \<open>
  The pattern \<^verbatim>\<open>/<img[^>]+src="([^"]+)"/i\<close> read as a description of texts. The letters
  of \<^verbatim>\<open><img\<close> and of \<^verbatim>\<open>src="\<close> may each be of either case.
\<close>

definition is_img_tag :: "jsstring \<Rightarrow> bool" where
  "is_img_tag t \<longleftrightarrow>
     (\<exists>a b c. t = [60, a, b, c] \<and> (a = 105 \<or> a = 73) \<and> (b = 109 \<or> b = 77) \<and> (c = 103 \<or> c = 71))"

definition is_src_attr :: "jsstring \<Rightarrow> bool" where
  "is_src_attr t \<longleftrightarrow>
     (\<exists>a b c. t = [a, b, c, 61, 34] \<and> (a = 115 \<or> a = 83) \<and> (b = 114 \<or> b = 82) \<and> (c = 99 \<or> c = 67))"

text \<open>
  An occurrence at position \<open>i\<close> with a run of length \<open>k\<close> and the value \<open>g\<close>: after \<open>i\<close>
  characters comes \<^verbatim>\<open><img\<close>, then \<open>k\<close> characters, at least one and none of them
  \<^verbatim>\<open>>\<close>, then \<^verbatim>\<open>src="\<close>, then \<open>g\<close>, not empty and without a quote, then a quote.
  \<open>src_after\<close> is the part that follows \<^verbatim>\<open><img\<close>, where the run may be empty.
\<close>

definition src_after :: "jsstring \<Rightarrow> nat \<Rightarrow> jsstring \<Rightarrow> bool" where
  "src_after s k g \<longleftrightarrow>
     (\<exists>mid attr post. s = mid @ attr @ g @ 34 # post \<and> length mid = k \<and> 62 \<notin> set mid
        \<and> is_src_attr attr \<and> g \<noteq> [] \<and> 34 \<notin> set g)"

definition img_src_at :: "jsstring \<Rightarrow> nat \<Rightarrow> nat \<Rightarrow> jsstring \<Rightarrow> bool" where
  "img_src_at s i k g \<longleftrightarrow>
     (\<exists>pre tag mid attr post. s = pre @ tag @ mid @ attr @ g @ 34 # post
        \<and> length pre = i \<and> length mid = k \<and> is_img_tag tag \<and> mid \<noteq> [] \<and> 62 \<notin> set mid
        \<and> is_src_attr attr \<and> g \<noteq> [] \<and> 34 \<notin> set g)"

text \<open>
  The group of the pattern: the value of the occurrence at the least position and, at that
  position, with the longest run.
\<close>

definition pattern_group :: "jsstring \<Rightarrow> jsstring \<Rightarrow> bool" where
  "pattern_group s g \<longleftrightarrow>
     (\<exists>i k. img_src_at s i k g
        \<and> (\<forall>i' k' g'. img_src_at s i' k' g' \<longrightarrow> i < i' \<or> (i' = i \<and> k' \<le> k)))"

section \<open>Stand-ins for concrete runs\<close>

text \<open>
  The theorems below hold for every platform. Where a statement is run on a concrete item,
  this platform stands in for the runtime: its \<open>Date.parse\<close> accepts one ISO instant
  (2024-05-01 10:00 UTC, 1714557600000 ms after the epoch) and answers \<open>NaN\<close> to every
  other string, as every engine does to \<open>not a date\<close>; its digest and its sanitizer are
  arbitrary.
\<close>

definition sample_platform :: platform where
  "sample_platform =
     \<lparr> Date_parse = (\<lambda>s. if s = ustr ''2024-05-01T10:00:00.000Z''
                          then Some 1714557600000 else None),
       sha1_digest = (\<lambda>s. word_of_nat (foldl (\<lambda>h c. 31 * h + c) 7 s)),
       sanitizeHtml = (\<lambda>s. s) \<rparr>"

text \<open>
  Three items: one complete, one without a URL, and one whose title element carried an
  attribute and no text, so that the XML parser delivered it as an object (the attributes
  under \<open>$\<close>).
\<close>

definition item_a :: jsval where
  "item_a = JObj [(ustr ''title'', JStr (ustr ''A'')), (ustr ''link'', JStr (ustr ''https://example.com/a''))]"

definition item_no_url :: jsval where
  "item_no_url = JObj [(ustr ''title'', JStr (ustr ''C''))]"

definition item_object_title :: jsval where
  "item_object_title =
     JObj [(ustr ''title'', JObj [(ustr ''$'', JObj [(ustr ''type'', JStr (ustr ''html''))])]),
           (ustr ''link'', JStr (ustr ''https://example.com/d''))]"

text \<open>
  A network on which one address always refuses, one times out on the first two requests
  of the run, one serves a feed that holds the item with the object title, and every
  other address serves a feed with a repeated item and an item without a URL. The store
  keeps the hashes it has seen and answers 1 to a new hash and 2 to a known one, the
  protocol \<open>insertArticle\<close> documents.
\<close>

definition sample_parseURL :: "jsstring \<Rightarrow> nat \<Rightarrow> jserror + feed" where
  "sample_parseURL url k =
     (if url = ustr ''https://down.example/rss'' then Inl (Error (ustr ''ECONNREFUSED''))
      else if url = ustr ''https://flaky.example/rss'' \<and> k < 2 then Inl (Error (ustr ''ETIMEDOUT''))
      else if url = ustr ''https://odd.example/rss''
        then Inr \<lparr>feed_title = JStr (ustr ''Odd''), items = Some [item_a, item_object_title]\<rparr>
      else Inr \<lparr>feed_title = JStr (ustr ''News''), items = Some [item_a, item_no_url, item_a]\<rparr>)"

definition sample_query :: "jsstring list \<Rightarrow> row \<Rightarrow> (jserror + nat) \<times> jsstring list" where
  "sample_query d r =
     (if row_url_hash r \<in> set d then (Inr 2, d) else (Inr 1, d @ [row_url_hash r]))"

definition sample_ports :: "jsstring list ports" where
  "sample_ports = \<lparr>parseURL = sample_parseURL, pool_query = sample_query\<rparr>"

definition world0 :: "jsstring list world" where
  "world0 = \<lparr>requests = 0, trace = [], db = []\<rparr>"

text \<open>The row \<open>insertArticle\<close> sends for \<open>item_a\<close>.\<close>

definition row_a :: "platform \<Rightarrow> row" where
  "row_a P =
     \<lparr> row_title = ustr ''A'', row_canonical_url = ustr ''https://example.com/a'',
       row_url_hash = sha1 P (JStr (ustr ''https://example.com/a'')),
       row_excerpt = None, row_content_html = None, row_image_url = JNull,
       row_published_at = None \<rparr>"

text \<open>
  A body with two image tags: the first in capitals and with a second attribute that ends
  in \<open>src\<close>, after a paragraph.
\<close>

definition body_two_tags :: jsstring where
  "body_two_tags =
     ustr ''<p>x</p><IMG SRC='' @ [34] @ ustr ''a.png'' @ [34] @ ustr '' data-src='' @ [34]
     @ ustr ''b.png'' @ [34] @ ustr ''><img src='' @ [34] @ ustr ''c.png'' @ [34] @ ustr ''>''"

section \<open>The normalizer: when it returns, and its URL fields\<close>

lemma call_trim_or_empty:
  "call_trim (js_or v (JStr [])) = (if truthy v then call_trim v else Inr [])"
  by (simp add: js_or_def js_trim_def)

text \<open>The normalizer returns an article exactly when both \<open>trim\<close> calls have a string.\<close>

lemma normalizeItem_returns_iff:
  "(\<exists>a. normalizeItem P item = Inr a) \<longleftrightarrow>
     trimmable (opt_prop item (ustr ''title'')) \<and>
     trimmable (js_or (opt_prop item (ustr ''link'')) (opt_prop item (ustr ''guid'')))"
  unfolding normalizeItem_def call_trim_or_empty trimmable_def Let_def
  apply (cases "opt_prop item (ustr ''title'')";
         cases "js_or (opt_prop item (ustr ''link'')) (opt_prop item (ustr ''guid''))")
  apply (auto split: sum.splits)
  done

text \<open>A missing item and an item without fields give the article with every field absent.\<close>

lemma normalizeItem_sparse:
  "normalizeItem P JNull =
     Inr \<lparr> title = [], canonical_url = None, url_hash = None, published_at = None,
           image_url = JNull, excerpt = None, content_html = None \<rparr>
   \<and> normalizeItem P JUndefined = normalizeItem P JNull
   \<and> normalizeItem P (JObj []) = normalizeItem P JNull"
  by (simp add: normalizeItem_def js_or_def js_trim_def makeExcerpt_def sanitizeContent_def
        pickImage_def)

lemma digest_hex_length: "length (digest_hex w) = 40"
  by (simp add: digest_hex_def)

lemma hex_digit_in:
  assumes "d < 16"
  shows "hex_digit d \<in> set (ustr ''0123456789abcdef'')"
proof -
  from assms have "d = 0 \<or> d = 1 \<or> d = 2 \<or> d = 3 \<or> d = 4 \<or> d = 5 \<or> d = 6 \<or> d = 7
      \<or> d = 8 \<or> d = 9 \<or> d = 10 \<or> d = 11 \<or> d = 12 \<or> d = 13 \<or> d = 14 \<or> d = 15"
    by arith
  then show ?thesis by (auto simp: hex_digit_def ustr_def)
qed

lemma digest_hex_digits: "set (digest_hex w) \<subseteq> set (ustr ''0123456789abcdef'')"
proof -
  have "unat (take_bit 4 (drop_bit k w)) < 16" for k
    by (simp add: unsigned_take_bit_eq take_bit_nat_less_exp [of 4, simplified])
  then show ?thesis
    unfolding digest_hex_def using hex_digit_in by auto
qed

lemma normalizeItem_url_hash:
  assumes "normalizeItem P item = Inr a"
  shows "url_hash a = map_option (\<lambda>u. sha1 P (JStr u)) (canonical_url a)"
  using assms by (auto simp: normalizeItem_def Let_def split: sum.splits)

text \<open>
  Claim C1. In every article the normalizer produces, \<open>url_hash\<close> is present exactly when
  \<open>canonical_url\<close> is; when present it is the hexadecimal SHA-1 digest of \<open>canonical_url\<close>
  and of nothing else, 40 characters drawn from \<open>0123456789abcdef\<close>; and two articles
  with the same \<open>canonical_url\<close> (which is stored trimmed) carry the same \<open>url_hash\<close>.
\<close>

theorem url_hash_iff_canonical_url:
  assumes "normalizeItem P item = Inr a" and "normalizeItem P item' = Inr a'"
  shows "(url_hash a \<noteq> None \<longleftrightarrow> canonical_url a \<noteq> None)
       \<and> url_hash a = map_option (\<lambda>u. digest_hex (sha1_digest P u)) (canonical_url a)
       \<and> (\<forall>h. url_hash a = Some h \<longrightarrow> length h = 40 \<and> set h \<subseteq> set (ustr ''0123456789abcdef''))
       \<and> (canonical_url a = canonical_url a' \<longrightarrow> url_hash a = url_hash a')"
proof -
  have a: "url_hash a = map_option (\<lambda>u. sha1 P (JStr u)) (canonical_url a)"
    using assms(1) by (rule normalizeItem_url_hash)
  have a': "url_hash a' = map_option (\<lambda>u. sha1 P (JStr u)) (canonical_url a')"
    using assms(2) by (rule normalizeItem_url_hash)
  have 1: "url_hash a \<noteq> None \<longleftrightarrow> canonical_url a \<noteq> None"
    by (simp add: a)
  have 2: "url_hash a = map_option (\<lambda>u. digest_hex (sha1_digest P u)) (canonical_url a)"
    by (simp add: a sha1_def)
  have 3: "\<forall>h. url_hash a = Some h \<longrightarrow> length h = 40 \<and> set h \<subseteq> set (ustr ''0123456789abcdef'')"
    using digest_hex_length digest_hex_digits by (auto simp: 2)
  have 4: "canonical_url a = canonical_url a' \<longrightarrow> url_hash a = url_hash a'"
    by (simp add: a a')
  from 1 2 3 4 show ?thesis by blast
qed

text \<open>
  The example of the specification: the title \<open>Breaking News\<close> with the URL
  \<open>https://example.com/a\<close>, and a second item with another title whose link is the same
  URL between spaces.
\<close>

theorem url_hash_iff_canonical_url_witness:
  "\<forall>P. \<exists>a a'.
     normalizeItem P (JObj [(ustr ''title'', JStr (ustr ''Breaking News'')),
                            (ustr ''link'', JStr (ustr ''https://example.com/a''))]) = Inr a
   \<and> normalizeItem P (JObj [(ustr ''title'', JStr (ustr ''Again'')),
                            (ustr ''link'', JStr (ustr ''  https://example.com/a ''))]) = Inr a'
   \<and> canonical_url a = Some (ustr ''https://example.com/a'')
   \<and> canonical_url a' = Some (ustr ''https://example.com/a'')
   \<and> url_hash a = Some (digest_hex (sha1_digest P (ustr ''https://example.com/a'')))
   \<and> url_hash a' = url_hash a
   \<and> length (digest_hex (sha1_digest P (ustr ''https://example.com/a''))) = 40"
proof
  fix P
  let ?i = "JObj [(ustr ''title'', JStr (ustr ''Breaking News'')),
                  (ustr ''link'', JStr (ustr ''https://example.com/a''))]"
  let ?i' = "JObj [(ustr ''title'', JStr (ustr ''Again'')),
                   (ustr ''link'', JStr (ustr ''  https://example.com/a ''))]"
  obtain a where a: "normalizeItem P ?i = Inr a"
    using normalizeItem_returns_iff [of P ?i]
    by (auto simp: trimmable_def js_or_def ustr_def)
  obtain a' where a': "normalizeItem P ?i' = Inr a'"
    using normalizeItem_returns_iff [of P ?i']
    by (auto simp: trimmable_def js_or_def ustr_def)
  have c: "canonical_url a = Some (ustr ''https://example.com/a'')"
    using a by (auto simp: normalizeItem_def ustr_def is_ws_def js_trim_def js_or_def Let_def)
  have c': "canonical_url a' = Some (ustr ''https://example.com/a'')"
    using a' by (auto simp: normalizeItem_def ustr_def is_ws_def js_trim_def js_or_def Let_def)
  from url_hash_iff_canonical_url [OF a a'] c c' a a'
  show "\<exists>a a'.
     normalizeItem P ?i = Inr a \<and> normalizeItem P ?i' = Inr a'
   \<and> canonical_url a = Some (ustr ''https://example.com/a'')
   \<and> canonical_url a' = Some (ustr ''https://example.com/a'')
   \<and> url_hash a = Some (digest_hex (sha1_digest P (ustr ''https://example.com/a'')))
   \<and> url_hash a' = url_hash a
   \<and> length (digest_hex (sha1_digest P (ustr ''https://example.com/a''))) = 40"
    by (auto simp: digest_hex_length)
qed




section \<open>The normalizer on a title that is not a string\<close>

text \<open>
  Claim C7 says the normalizer never throws. An XML element with an attribute and no text
  reaches the normalizer as an object (its attributes under \<open>$\<close>); such a title is truthy
  and has no \<open>trim\<close> method, and the normalizer throws a \<open>TypeError\<close>.
\<close>

theorem normalizeItem_throws_on_object_title:
  "normalizeItem P
     (JObj [(ustr ''title'', JObj [(ustr ''$'', JObj [(ustr ''type'', JStr (ustr ''html''))])]),
            (ustr ''link'', JStr (ustr ''https://example.com/a''))])
   = Inl TypeError"
  by (simp add: normalizeItem_def js_or_def ustr_def)

section \<open>The publication date\<close>

lemma normalizeItem_published_at:
  assumes "normalizeItem P item = Inr a"
  shows "published_at a =
       (if truthy (opt_prop item (ustr ''isoDate'')) then Some (new_Date P (opt_prop item (ustr ''isoDate'')))
        else if truthy (opt_prop item (ustr ''pubDate'')) then Some (new_Date P (opt_prop item (ustr ''pubDate'')))
        else None)"
  using assms by (auto simp: normalizeItem_def Let_def js_or_def split: sum.splits)

text \<open>
  Claim C2, as amended. For an item on which the normalizer does not throw, \<open>published_at\<close>
  is \<open>new Date(isoDate)\<close> when \<open>isoDate\<close> is truthy, else \<open>new Date(pubDate)\<close> when \<open>pubDate\<close>
  is truthy, else \<open>null\<close>; a chosen string that does not parse gives an Invalid Date (time
  value \<open>NaN\<close>), not \<open>null\<close>.
\<close>

theorem published_at_isoDate_else_pubDate:
  assumes "trimmable (opt_prop item (ustr ''title''))"
    and "trimmable (js_or (opt_prop item (ustr ''link'')) (opt_prop item (ustr ''guid'')))"
  shows "\<exists>a. normalizeItem P item = Inr a
     \<and> published_at a =
         (if truthy (opt_prop item (ustr ''isoDate''))
          then Some (new_Date P (opt_prop item (ustr ''isoDate'')))
          else if truthy (opt_prop item (ustr ''pubDate''))
          then Some (new_Date P (opt_prop item (ustr ''pubDate'')))
          else None)
     \<and> (\<forall>s. s \<noteq> [] \<and> Date_parse P s = None
            \<and> (if truthy (opt_prop item (ustr ''isoDate'')) then opt_prop item (ustr ''isoDate'')
                else opt_prop item (ustr ''pubDate'')) = JStr s
          \<longrightarrow> published_at a = Some (JDate None))"
proof -
  from assms obtain a where a: "normalizeItem P item = Inr a"
    using normalizeItem_returns_iff [of P item] by blast
  from normalizeItem_published_at [OF a] a show ?thesis
    by (intro exI [of _ a]) (auto split: if_splits)
qed

text \<open>An empty \<open>isoDate\<close> beside a \<open>pubDate\<close> that parses.\<close>

theorem published_at_isoDate_else_pubDate_witness:
  "\<exists>a. normalizeItem sample_platform
          (JObj [(ustr ''isoDate'', JStr []),
                 (ustr ''pubDate'', JStr (ustr ''2024-05-01T10:00:00.000Z''))]) = Inr a
       \<and> published_at a = Some (JDate (Some 1714557600000))"
  using published_at_isoDate_else_pubDate
          [of "JObj [(ustr ''isoDate'', JStr []),
                     (ustr ''pubDate'', JStr (ustr ''2024-05-01T10:00:00.000Z''))]" sample_platform]
  by (simp add: trimmable_def js_or_def ustr_def sample_platform_def)

text \<open>
  Claim C2 as stated fails: a \<open>pubDate\<close> that does not parse gives an Invalid Date where
  the claim promises \<open>null\<close>.
\<close>

theorem published_at_invalid_date_counterexample:
  "Date_parse sample_platform (ustr ''not a date'') = None
   \<and> normalizeItem sample_platform (JObj [(ustr ''pubDate'', JStr (ustr ''not a date''))])
     = Inr \<lparr> title = [], canonical_url = None, url_hash = None,
             published_at = Some (JDate None), image_url = JNull, excerpt = None,
             content_html = None \<rparr>"
  by (simp add: normalizeItem_def js_or_def ustr_def sample_platform_def js_trim_def
        makeExcerpt_def sanitizeContent_def pickImage_def)

section \<open>The excerpt builder: length bound and idempotence\<close>

lemma not_ws_ellipsis: "\<not> is_ws ellipsis"
  by (simp add: is_ws_def ellipsis_def)

lemma collapse_ws_Nil_iff: "collapse_ws s = [] \<longleftrightarrow> s = []"
  by (cases s) auto

lemma hd_collapse_ws: "s \<noteq> [] \<Longrightarrow> \<not> is_ws (hd s) \<Longrightarrow> hd (collapse_ws s) = hd s"
  by (cases s) auto

lemma collapsed_Cons: "collapsed (c # cs) \<longleftrightarrow> (is_ws c \<longrightarrow> c = 32 \<and> (cs \<noteq> [] \<longrightarrow> \<not> is_ws (hd cs))) \<and> collapsed cs"
  by (cases cs) auto

lemma collapsed_collapse_ws: "collapsed (collapse_ws s)"
proof (induction s rule: collapse_ws.induct)
  case 1
  show ?case by simp
next
  case (2 c cs)
  show ?case
  proof (cases "is_ws c")
    case True
    let ?r = "dropWhile is_ws cs"
    have "collapsed (collapse_ws ?r)" using 2(1) True by simp
    moreover have "collapse_ws ?r \<noteq> [] \<longrightarrow> \<not> is_ws (hd (collapse_ws ?r))"
    proof
      assume "collapse_ws ?r \<noteq> []"
      then have ne: "?r \<noteq> []" by (simp add: collapse_ws_Nil_iff)
      then have "\<not> is_ws (hd ?r)" by (rule hd_dropWhile)
      with ne show "\<not> is_ws (hd (collapse_ws ?r))" by (simp add: hd_collapse_ws)
    qed
    ultimately show ?thesis using True by (simp add: collapsed_Cons)
  next
    case False
    then show ?thesis using 2(2) by (simp add: collapsed_Cons)
  qed
qed

lemma collapse_ws_collapsed: "collapsed s \<Longrightarrow> collapse_ws s = s"
proof (induction s rule: collapsed.induct)
  case 1
  show ?case by simp
next
  case (2 c)
  then show ?case by simp
next
  case (3 c d cs)
  then show ?case by auto
qed

lemma collapsed_take: "collapsed s \<Longrightarrow> collapsed (take n s)"
proof (induction s arbitrary: n rule: collapsed.induct)
  case 1
  show ?case by simp
next
  case (2 c)
  then show ?case by (cases n) auto
next
  case (3 c d cs)
  show ?case
  proof (cases n)
    case 0
    then show ?thesis by simp
  next
    case (Suc m)
    have "collapsed (take m (d # cs))" using 3 by simp
    then show ?thesis using 3(2) Suc by (cases m) auto
  qed
qed

lemma collapsed_tl: "collapsed (c # cs) \<Longrightarrow> collapsed cs"
  by (simp add: collapsed_Cons)

lemma collapsed_dropWhile: "collapsed s \<Longrightarrow> collapsed (dropWhile P s)"
  by (induction s) (auto dest: collapsed_tl)

lemma collapsed_snoc: "collapsed s \<Longrightarrow> \<not> is_ws e \<Longrightarrow> collapsed (s @ [e])"
  by (induction s rule: collapsed.induct) auto

lemma rev_dropWhile_rev_take: "rev (dropWhile P (rev xs)) = take (length (dropWhile P (rev xs))) xs"
proof -
  have "rev xs = takeWhile P (rev xs) @ dropWhile P (rev xs)" by simp
  then have "xs = rev (dropWhile P (rev xs)) @ rev (takeWhile P (rev xs))"
    by (metis rev_append rev_rev_ident)
  then show ?thesis
    by (metis append_eq_conv_conj length_rev)
qed

lemma js_trim_take: "js_trim s = take (length (js_trim s)) (dropWhile is_ws s)"
proof -
  let ?e = "dropWhile is_ws (rev (dropWhile is_ws s))"
  have "js_trim s = take (length ?e) (dropWhile is_ws s)"
    unfolding js_trim_def by (rule rev_dropWhile_rev_take)
  moreover have "length (js_trim s) = length ?e"
    by (simp add: js_trim_def)
  ultimately show ?thesis by simp
qed

lemma collapsed_js_trim: "collapsed s \<Longrightarrow> collapsed (js_trim s)"
  using js_trim_take [of s] collapsed_take collapsed_dropWhile by metis

lemma length_js_trim: "length (js_trim s) \<le> length s"
proof -
  have "length (js_trim s) \<le> length (dropWhile is_ws s)"
    unfolding js_trim_def by (simp add: length_dropWhile_le) (metis length_dropWhile_le length_rev)
  also have "\<dots> \<le> length s" by (rule length_dropWhile_le)
  finally show ?thesis .
qed

lemma js_trim_ends:
  assumes "js_trim s \<noteq> []"
  shows "\<not> is_ws (hd (js_trim s)) \<and> \<not> is_ws (last (js_trim s))"
proof
  let ?d = "dropWhile is_ws s"
  let ?e = "dropWhile is_ws (rev ?d)"
  have t: "js_trim s = rev ?e" by (simp only: js_trim_def)
  from assms t have e: "?e \<noteq> []" by (simp only: rev_is_Nil_conv not_False_eq_True)
  have d: "?d \<noteq> []"
  proof
    assume "?d = []"
    then have "?e = []" by (simp only: rev.simps dropWhile.simps)
    with e show False by simp
  qed
  have "hd (js_trim s) = hd ?d"
    using js_trim_take [of s] assms by (metis hd_take length_greater_0_conv)
  with hd_dropWhile [OF d] show "\<not> is_ws (hd (js_trim s))" by simp
  have "last (js_trim s) = hd ?e" unfolding t using e by (simp only: last_rev)
  with hd_dropWhile [OF e] show "\<not> is_ws (last (js_trim s))" by simp
qed

lemma js_trim_id:
  assumes "y \<noteq> []" and "\<not> is_ws (hd y)" and "\<not> is_ws (last y)"
  shows "js_trim y = y"
proof -
  from assms(1,2) have 1: "dropWhile is_ws y = y" by (cases y) auto
  from assms(1,3) have 2: "dropWhile is_ws (rev y) = rev y"
    by (cases "rev y") (auto simp: last_rev [symmetric] hd_rev)
  show ?thesis unfolding js_trim_def 1 2 by simp
qed

lemma js_trim_rtrim: "js_trim s = rtrim (dropWhile is_ws s)"
  by (simp add: js_trim_def rtrim_def)

lemma rtrim_append:
  "rtrim (a @ b) = (if rtrim b = [] then rtrim a else a @ rtrim b)"
  by (simp add: rtrim_def dropWhile_append)

lemma rtrim_nonws: "\<not> is_ws c \<Longrightarrow> rtrim (xs @ [c]) = xs @ [c]"
  by (simp add: rtrim_def)

lemma rtrim_Nil: "rtrim [] = []"
  by (simp add: rtrim_def)

lemma collapse_ws_nonws_prefix:
  "\<forall>c\<in>set u. \<not> is_ws c \<Longrightarrow> collapse_ws (u @ r) = u @ collapse_ws r"
  by (induction u) auto

lemma ws_words_dropWhile: "ws_words (dropWhile is_ws s) = ws_words s"
  by (induction s) auto

lemma collapse_ws_leading:
  "dropWhile is_ws (collapse_ws s) = collapse_ws (dropWhile is_ws s)"
proof (cases s)
  case Nil
  then show ?thesis by simp
next
  case (Cons c cs)
  show ?thesis
  proof (cases "is_ws c")
    case False
    with Cons show ?thesis by simp
  next
    case True
    define r where "r = dropWhile is_ws cs"
    have "dropWhile is_ws (collapse_ws r) = collapse_ws r"
    proof (cases r)
      case Nil
      then show ?thesis by simp
    next
      case (Cons d ds)
      then have "\<not> is_ws d" using hd_dropWhile [of is_ws cs] unfolding r_def by auto
      with Cons show ?thesis by simp
    qed
    with True Cons show ?thesis unfolding r_def by (simp add: is_ws_def)
  qed
qed

lemma join_spaces_Nil_iff:
  "\<forall>w\<in>set ws. w \<noteq> [] \<Longrightarrow> join_spaces ws = [] \<longleftrightarrow> ws = []"
  by (induction ws rule: join_spaces.induct) auto

lemma ws_words_nonempty: "\<forall>w\<in>set (ws_words s). w \<noteq> []"
  by (induction s rule: ws_words.induct) auto

text \<open>The key step: a string that does not start with whitespace.\<close>

lemma rtrim_word:
  assumes "w \<noteq> []" and "\<forall>x\<in>set w. \<not> is_ws x"
  shows "rtrim w = w"
proof -
  from assms(1) have "w = butlast w @ [last w]" by simp
  moreover from assms have "\<not> is_ws (last w)" by simp
  ultimately show ?thesis using rtrim_nonws by metis
qed

lemma rtrim_collapse_words:
  "s = [] \<or> \<not> is_ws (hd s) \<Longrightarrow> rtrim (collapse_ws s) = join_spaces (ws_words s)"
proof (induction "length s" arbitrary: s rule: less_induct)
  case less
  show ?case
  proof (cases s)
    case Nil
    then show ?thesis by (simp add: rtrim_Nil)
  next
    case (Cons c cs)
    with less.prems have c: "\<not> is_ws c" by simp
    define w where "w = c # takeWhile (\<lambda>x. \<not> is_ws x) cs"
    define r where "r = dropWhile (\<lambda>x. \<not> is_ws x) cs"
    have s: "s = w @ r" using Cons by (simp add: w_def r_def)
    have w: "\<forall>x\<in>set w. \<not> is_ws x" using c by (auto simp: w_def dest: set_takeWhileD)
    have wne: "w \<noteq> []" by (simp add: w_def)
    have cw: "collapse_ws s = w @ collapse_ws r"
      unfolding s using w by (rule collapse_ws_nonws_prefix)
    have words: "ws_words s = w # ws_words r" using Cons c by (simp add: w_def r_def)
    have rw: "rtrim w = w" using wne w by (rule rtrim_word)
    have lr: "length r < length s"
      unfolding s using wne by (cases w) auto
    show ?thesis
    proof (cases r)
      case Nil
      with cw words rw show ?thesis by simp
    next
      case (Cons d ds)
      then have d: "is_ws d"
        using hd_dropWhile [of "\<lambda>x. \<not> is_ws x" cs] unfolding r_def by auto
      define r' where "r' = dropWhile is_ws ds"
      have cr: "collapse_ws r = 32 # collapse_ws r'" using Cons d by (simp add: r'_def)
      have wr: "ws_words r = ws_words r'"
        using Cons d by (simp add: r'_def ws_words_dropWhile)
      have len: "length r' < length s"
      proof -
        have "length r' \<le> length ds" unfolding r'_def by (rule length_dropWhile_le)
        also have "\<dots> < length r" using Cons by simp
        finally show ?thesis using lr by simp
      qed
      have start: "r' = [] \<or> \<not> is_ws (hd r')"
        using hd_dropWhile [of is_ws ds] unfolding r'_def by auto
      from less.hyps [OF len start]
      have ih: "rtrim (collapse_ws r') = join_spaces (ws_words r')" .
      have sp: "rtrim [32] = []" by (simp add: rtrim_def is_ws_def)
      show ?thesis
      proof (cases "ws_words r' = []")
        case True
        with ih have e: "rtrim (collapse_ws r') = []" by simp
        have "rtrim (32 # collapse_ws r') = []"
          using rtrim_append [of "[32]" "collapse_ws r'"] e sp by simp
        then have "rtrim (collapse_ws s) = rtrim w"
          unfolding cw cr using rtrim_append [of w "32 # collapse_ws r'"] by simp
        with rw words wr True show ?thesis by simp
      next
        case False
        then obtain v vs where v: "ws_words r' = v # vs" by (cases "ws_words r'") auto
        from False ih have ne: "rtrim (collapse_ws r') \<noteq> []"
          using join_spaces_Nil_iff [OF ws_words_nonempty, of r'] by simp
        have "rtrim (32 # collapse_ws r') = 32 # rtrim (collapse_ws r')"
          using rtrim_append [of "[32]" "collapse_ws r'"] ne by simp
        then have "rtrim (collapse_ws s) = w @ 32 # rtrim (collapse_ws r')"
          unfolding cw cr using rtrim_append [of w "32 # collapse_ws r'"] by simp
        with ih words wr v show ?thesis by simp
      qed
    qed
  qed
qed

lemma js_trim_collapse_words: "js_trim (collapse_ws s) = join_spaces (ws_words s)"
proof -
  let ?s = "dropWhile is_ws s"
  have "js_trim (collapse_ws s) = rtrim (collapse_ws ?s)"
    by (simp add: js_trim_rtrim collapse_ws_leading)
  also have "\<dots> = join_spaces (ws_words ?s)"
    by (rule rtrim_collapse_words) (use hd_dropWhile [of is_ws s] in auto)
  also have "\<dots> = join_spaces (ws_words s)" by (simp add: ws_words_dropWhile)
  finally show ?thesis .
qed

lemma js_trim_prefix_of_words:
  "js_trim (take n (join_spaces (ws_words s))) = rtrim (take n (join_spaces (ws_words s)))"
proof -
  let ?c = "join_spaces (ws_words s)"
  have c: "?c = js_trim (collapse_ws s)" by (simp add: js_trim_collapse_words)
  have "dropWhile is_ws (take n ?c) = take n ?c"
  proof (cases "take n ?c")
    case Nil
    show ?thesis unfolding Nil by simp
  next
    case (Cons d ds)
    then have ne: "?c \<noteq> []" and n: "0 < n" by (auto intro: gr0I)
    from Cons have "d = hd (take n ?c)" by simp
    with n have "d = hd ?c" by (simp add: hd_take)
    with ne js_trim_ends [of "collapse_ws s"] c have "\<not> is_ws d" by simp
    with Cons show ?thesis by simp
  qed
  then show ?thesis by (simp add: js_trim_rtrim)
qed

lemma makeExcerpt_string:
  assumes "s \<noteq> []" and "1 \<le> mx"
  shows "makeExcerpt (JStr s) mx =
           Some (if int (length (js_trim (collapse_ws s))) \<le> mx then js_trim (collapse_ws s)
                 else js_trim (take (nat (mx - 1)) (js_trim (collapse_ws s))) @ [ellipsis])"
  using assms by (simp add: makeExcerpt_def Let_def js_slice0_def)

text \<open>
  The excerpt of a non-empty string: its words joined by single spaces when that fits,
  else the first \<open>max - 1\<close> characters of that, without trailing whitespace, and an ellipsis.
\<close>

lemma makeExcerpt_words:
  assumes "s \<noteq> []" and "1 \<le> mx"
  shows "makeExcerpt (JStr s) mx =
           Some (let c = join_spaces (ws_words s)
                 in if int (length c) \<le> mx then c
                    else rtrim (take (nat (mx - 1)) c) @ [ellipsis])"
  by (simp add: makeExcerpt_string [OF assms] js_trim_collapse_words
        js_trim_prefix_of_words Let_def)

lemma normal_fixed:
  assumes "collapsed r" and "r \<noteq> []" and "\<not> is_ws (hd r)" and "\<not> is_ws (last r)"
  shows "js_trim (collapse_ws r) = r"
  using assms by (simp add: collapse_ws_collapsed js_trim_id)

lemma excerpt_short_normal:
  "collapsed (js_trim (collapse_ws s))
   \<and> (js_trim (collapse_ws s) \<noteq> [] \<longrightarrow>
        \<not> is_ws (hd (js_trim (collapse_ws s))) \<and> \<not> is_ws (last (js_trim (collapse_ws s))))"
proof -
  have "collapsed (js_trim (collapse_ws s))"
    by (rule collapsed_js_trim) (rule collapsed_collapse_ws)
  then show ?thesis using js_trim_ends [of "collapse_ws s"] by blast
qed

lemma excerpt_cut_normal:
  "collapsed (js_trim (take n (js_trim (collapse_ws s))) @ [ellipsis])
   \<and> \<not> is_ws (hd (js_trim (take n (js_trim (collapse_ws s))) @ [ellipsis]))
   \<and> \<not> is_ws (last (js_trim (take n (js_trim (collapse_ws s))) @ [ellipsis]))"
proof -
  let ?t = "js_trim (take n (js_trim (collapse_ws s)))"
  have "collapsed ?t"
    by (intro collapsed_js_trim collapsed_take collapsed_collapse_ws)
  then have 1: "collapsed (?t @ [ellipsis])"
    by (rule collapsed_snoc) (rule not_ws_ellipsis)
  have 2: "\<not> is_ws (hd (?t @ [ellipsis]))"
  proof (cases "?t = []")
    case True
    then show ?thesis by (simp add: not_ws_ellipsis)
  next
    case False
    with js_trim_ends [OF False] show ?thesis by (simp add: hd_append)
  qed
  have 3: "\<not> is_ws (last (?t @ [ellipsis]))" by (simp add: not_ws_ellipsis)
  from 1 2 3 show ?thesis by blast
qed

text \<open>Every excerpt is in normal form: single spaces only, none at either end.\<close>

lemma makeExcerpt_normal:
  assumes "1 \<le> mx" and "makeExcerpt (JStr s) mx = Some r"
  shows "collapsed r \<and> (r \<noteq> [] \<longrightarrow> \<not> is_ws (hd r) \<and> \<not> is_ws (last r))"
proof -
  from assms(2) have ne: "s \<noteq> []" by (auto simp: makeExcerpt_def split: if_splits)
  let ?c = "js_trim (collapse_ws s)"
  show ?thesis
  proof (cases "int (length ?c) \<le> mx")
    case True
    with assms(2) makeExcerpt_string [OF ne assms(1)] have "r = ?c" by simp
    with excerpt_short_normal [of s] show ?thesis by simp
  next
    case False
    with assms(2) makeExcerpt_string [OF ne assms(1)]
    have "r = js_trim (take (nat (mx - 1)) ?c) @ [ellipsis]" by simp
    with excerpt_cut_normal [of "nat (mx - 1)" s] show ?thesis by simp
  qed
qed

lemma makeExcerpt_bound:
  assumes "1 \<le> mx" and "makeExcerpt (JStr s) mx = Some r"
  shows "int (length r) \<le> mx"
proof -
  from assms(2) have ne: "s \<noteq> []" by (auto simp: makeExcerpt_def split: if_splits)
  let ?c = "js_trim (collapse_ws s)"
  show ?thesis
  proof (cases "int (length ?c) \<le> mx")
    case True
    with assms(2) makeExcerpt_string [OF ne assms(1)] show ?thesis by simp
  next
    case False
    with assms(2) makeExcerpt_string [OF ne assms(1)]
    have r: "r = js_trim (take (nat (mx - 1)) ?c) @ [ellipsis]" by simp
    have "length (js_trim (take (nat (mx - 1)) ?c)) \<le> length (take (nat (mx - 1)) ?c)"
      by (rule length_js_trim)
    also have "\<dots> \<le> nat (mx - 1)" by simp
    finally show ?thesis using assms(1) r by simp
  qed
qed

lemma makeExcerpt_idem:
  assumes "1 \<le> mx" and "makeExcerpt (JStr s) mx = Some r" and "r \<noteq> []"
  shows "makeExcerpt (JStr r) mx = Some r"
proof -
  from makeExcerpt_normal [OF assms(1,2)] assms(3)
  have "js_trim (collapse_ws r) = r" by (intro normal_fixed) simp_all
  moreover from makeExcerpt_bound [OF assms(1,2)] have "int (length r) \<le> mx" .
  ultimately show ?thesis using makeExcerpt_string [OF assms(3) assms(1)] by simp
qed

text \<open>
  Claim C4, as amended. For every maximum of at least 1: absent and empty input give
  absent output; a non-empty string has its whitespace runs collapsed to one space and its
  ends trimmed (its words, joined by single spaces), and is returned as it is when no
  longer than the maximum, otherwise cut to \<open>max - 1\<close> characters, freed of trailing
  whitespace, and ended with one ellipsis; the output is never longer
  than the maximum, its only whitespace is single spaces and none stands at either end;
  and the builder applied to a non-empty output of its own returns it unchanged.
\<close>

theorem makeExcerpt_contract:
  assumes "1 \<le> mx"
  shows "makeExcerpt JUndefined mx = None \<and> makeExcerpt JNull mx = None
       \<and> makeExcerpt (JStr []) mx = None
       \<and> (s \<noteq> [] \<longrightarrow>
            makeExcerpt (JStr s) mx =
              Some (let c = join_spaces (ws_words s)
                    in if int (length c) \<le> mx then c
                       else rtrim (take (nat (mx - 1)) c) @ [ellipsis]))
       \<and> (\<forall>r. makeExcerpt (JStr s) mx = Some r \<longrightarrow>
              int (length r) \<le> mx \<and> collapsed r
              \<and> (r \<noteq> [] \<longrightarrow> \<not> is_ws (hd r) \<and> \<not> is_ws (last r)))
       \<and> (\<forall>r. makeExcerpt (JStr s) mx = Some r \<and> r \<noteq> [] \<longrightarrow> makeExcerpt (JStr r) mx = Some r)"
proof -
  have 1: "makeExcerpt JUndefined mx = None \<and> makeExcerpt JNull mx = None
       \<and> makeExcerpt (JStr []) mx = None"
    by (simp add: makeExcerpt_def)
  have 2: "s \<noteq> [] \<longrightarrow>
            makeExcerpt (JStr s) mx =
              Some (let c = join_spaces (ws_words s)
                    in if int (length c) \<le> mx then c
                       else rtrim (take (nat (mx - 1)) c) @ [ellipsis])"
    using makeExcerpt_words [OF _ assms] by blast
  have 3: "\<forall>r. makeExcerpt (JStr s) mx = Some r \<longrightarrow>
              int (length r) \<le> mx \<and> collapsed r
              \<and> (r \<noteq> [] \<longrightarrow> \<not> is_ws (hd r) \<and> \<not> is_ws (last r))"
    using makeExcerpt_bound [OF assms] makeExcerpt_normal [OF assms] by blast
  have 4: "\<forall>r. makeExcerpt (JStr s) mx = Some r \<and> r \<noteq> [] \<longrightarrow> makeExcerpt (JStr r) mx = Some r"
    using makeExcerpt_idem [OF assms] by blast
  from 1 2 3 4 show ?thesis by blast
qed

text \<open>A text that is cut, its excerpt fed back, a text that fits, and the empty text.\<close>

theorem makeExcerpt_contract_witness:
  "makeExcerpt (JStr (ustr ''  hello   world   foo '')) 8 = Some (ustr ''hello w'' @ [ellipsis])
   \<and> makeExcerpt (JStr (ustr ''hello w'' @ [ellipsis])) 8 = Some (ustr ''hello w'' @ [ellipsis])
   \<and> makeExcerpt (JStr (ustr '' a  b '')) 8 = Some (ustr ''a b'')
   \<and> makeExcerpt (JStr []) 8 = None"
proof -
  have e: "makeExcerpt (JStr (ustr ''  hello   world   foo '')) 8 = Some (ustr ''hello w'' @ [ellipsis])"
    by (simp add: makeExcerpt_def ustr_def is_ws_def js_trim_def js_slice0_def)
  have s: "makeExcerpt (JStr (ustr '' a  b '')) 8 = Some (ustr ''a b'')"
    by (simp add: makeExcerpt_def ustr_def is_ws_def js_trim_def js_slice0_def)
  from makeExcerpt_contract [of 8 "ustr ''  hello   world   foo ''"] e s show ?thesis
    by simp
qed

text \<open>
  Claim C4 as stated fails on idempotence: a string of whitespace only gives the empty
  string, and the empty string gives \<open>null\<close>.
\<close>

theorem makeExcerpt_blank_counterexample:
  "makeExcerpt (JStr (ustr '' '')) 220 = Some []
   \<and> makeExcerpt (JStr []) 220 = None"
  by (simp add: makeExcerpt_def ustr_def is_ws_def js_trim_def)

section \<open>The normalizer: link, guid and the canonical URL\<close>







text \<open>The example of the specification: only \<open>guid\<close> is set, to \<open>id-123\<close>.\<close>

lemma normalizeItem_guid_only:
  "\<exists>a. normalizeItem P (JObj [(ustr ''guid'', JStr (ustr ''id-123''))]) = Inr a
      \<and> canonical_url a = Some (ustr ''id-123'')"
  by (simp add: normalizeItem_def js_or_def ustr_def js_trim_def is_ws_def Let_def)

text \<open>
  Claim C8 gives \<open>canonical_url\<close> for every raw feed item: the trimmed \<open>link\<close>, else the
  trimmed \<open>guid\<close>. On the items for which the normalizer returns an article it is so
  (\<open>normalizeItem_canonical_url\<close>, \<open>normalizeItem_guid_only\<close>). But an item whose title
  element carried an attribute and no text, beside the guid \<open>id-123\<close>, gets no
  \<open>canonical_url\<close> at all: the normalizer throws on the title before it reads the guid. So
  does an item whose link element carried its address in an attribute and arrives as an
  object: \<open>trim\<close> is called on the object.
\<close>

theorem normalizeItem_throws_beside_guid:
  "normalizeItem P
     (JObj [(ustr ''title'', JObj [(ustr ''$'', JObj [(ustr ''type'', JStr (ustr ''html''))])]),
            (ustr ''guid'', JStr (ustr ''id-123''))])
   = Inl TypeError
   \<and> normalizeItem P
     (JObj [(ustr ''title'', JStr (ustr ''T'')),
            (ustr ''link'', JObj [(ustr ''$'', JObj [(ustr ''href'', JStr (ustr ''https://example.com/a''))])]),
            (ustr ''guid'', JStr (ustr ''id-123''))])
   = Inl TypeError"
  by (simp add: normalizeItem_def js_or_def ustr_def js_trim_def is_ws_def)

section \<open>Image selection: the pattern and the priority chain\<close>

lemma src_value_SomeD:
  assumes "src_value s = Some g"
  shows "g \<noteq> [] \<and> 34 \<notin> set g \<and> (\<exists>post. s = g @ 34 # post)"
proof -
  let ?P = "\<lambda>c::nat. c \<noteq> 34"
  from assms have g: "g = takeWhile ?P s" and ne: "g \<noteq> []" and len: "length g < length s"
    by (auto simp: src_value_def Let_def split: if_splits)
  have "34 \<notin> set g" unfolding g by (auto dest: set_takeWhileD)
  moreover have "\<exists>post. s = g @ 34 # post"
  proof -
    have s: "s = g @ dropWhile ?P s" unfolding g by simp
    have "length s = length g + length (dropWhile ?P s)"
      unfolding g by (metis length_append takeWhile_dropWhile_id)
    with len have "0 < length (dropWhile ?P s)" by simp
    then have d: "dropWhile ?P s \<noteq> []" by (rule length_greater_0_conv [THEN iffD1])
    from hd_dropWhile [OF d] have "hd (dropWhile ?P s) = 34" by simp
    with d have "dropWhile ?P s = 34 # tl (dropWhile ?P s)" by (cases "dropWhile ?P s") auto
    with s show ?thesis by metis
  qed
  ultimately show ?thesis using ne by blast
qed

lemma src_value_SomeI:
  assumes "g \<noteq> []" and "34 \<notin> set g"
  shows "src_value (g @ 34 # post) = Some g"
proof -
  have "takeWhile (\<lambda>c::nat. c \<noteq> 34) (g @ 34 # post) = g"
    using assms(2) by (induction g) auto
  then show ?thesis using assms(1) by (simp add: src_value_def)
qed

lemma ci_prefixD:
  assumes "ci_prefix p s"
  shows "\<exists>h. s = h @ drop (length p) s \<and> map lower h = p"
proof -
  from assms have "map lower (take (length p) s) = p" by (simp add: ci_prefix_def)
  moreover have "s = take (length p) s @ drop (length p) s" by simp
  ultimately show ?thesis by blast
qed

lemma ci_prefixI: "map lower h = p \<Longrightarrow> ci_prefix p (h @ t)"
  by (auto simp: ci_prefix_def)

lemma length_src_attr: "length (ustr ''src='' @ [34]) = 5"
  by (simp add: ustr_def)

lemma length_img_tag: "length (ustr ''<img'') = 4"
  by (simp add: ustr_def)

text \<open>Folding the case of a letter: what \<open>lower\<close> maps onto a given character.\<close>

lemma lower_eq_iff:
  "lower x = p \<longleftrightarrow> (if 65 \<le> p \<and> p \<le> 90 then False
                      else x = p \<or> (97 \<le> p \<and> p \<le> 122 \<and> x + 32 = p))"
  unfolding lower_def by (cases "65 \<le> x \<and> x \<le> 90") auto

lemma map_lower_4:
  "map lower t = [p, q, r, u] \<longleftrightarrow>
     (\<exists>a b c d. t = [a, b, c, d] \<and> lower a = p \<and> lower b = q \<and> lower c = r \<and> lower d = u)"
  by (simp only: map_eq_Cons_conv) auto

lemma map_lower_5:
  "map lower t = [p, q, r, u, v] \<longleftrightarrow>
     (\<exists>a b c d e. t = [a, b, c, d, e] \<and> lower a = p \<and> lower b = q \<and> lower c = r \<and> lower d = u
        \<and> lower e = v)"
  by (simp only: map_eq_Cons_conv) auto

lemma is_img_tag_iff: "is_img_tag t \<longleftrightarrow> map lower t = ustr ''<img''"
proof -
  have u: "ustr ''<img'' = [60, 105, 109, 103]" by (simp add: ustr_def)
  show ?thesis unfolding u map_lower_4 is_img_tag_def
    by (simp add: lower_eq_iff)
qed

lemma is_src_attr_iff: "is_src_attr t \<longleftrightarrow> map lower t = ustr ''src='' @ [34]"
proof -
  have u: "ustr ''src='' @ [34] = [115, 114, 99, 61, 34]" by (simp add: ustr_def)
  show ?thesis unfolding u map_lower_5 is_src_attr_def
    by (simp add: lower_eq_iff)
qed

lemma src_after_Nil: "\<not> src_after [] k g"
  by (simp add: src_after_def)

lemma src_after_0:
  "src_after s 0 g \<longleftrightarrow> ci_prefix (ustr ''src='' @ [34]) s \<and> src_value (drop 5 s) = Some g"
proof
  assume "src_after s 0 g"
  then obtain attr post where s: "s = attr @ g @ 34 # post" and a: "is_src_attr attr"
    and g: "g \<noteq> []" "34 \<notin> set g"
    by (auto simp: src_after_def)
  from a have l: "map lower attr = ustr ''src='' @ [34]" by (simp add: is_src_attr_iff)
  then have len: "length attr = 5" by (metis length_map length_src_attr)
  have "ci_prefix (ustr ''src='' @ [34]) s" unfolding s using l by (rule ci_prefixI)
  moreover have "src_value (drop 5 s) = Some g"
    unfolding s using len src_value_SomeI [OF g] by simp
  ultimately show "ci_prefix (ustr ''src='' @ [34]) s \<and> src_value (drop 5 s) = Some g" by blast
next
  assume *: "ci_prefix (ustr ''src='' @ [34]) s \<and> src_value (drop 5 s) = Some g"
  define d where "d = drop 5 s"
  from * have p: "ci_prefix (ustr ''src='' @ [34]) s" and v: "src_value d = Some g"
    unfolding d_def by blast+
  from ci_prefixD [OF p] obtain h where h: "s = h @ d"
    and l: "map lower h = ustr ''src='' @ [34]" unfolding length_src_attr d_def by blast
  from src_value_SomeD [OF v] obtain post where "g \<noteq> []" "34 \<notin> set g"
    "d = g @ 34 # post" by blast
  with h l have "s = [] @ h @ g @ 34 # post \<and> length ([]::nat list) = 0 \<and> 62 \<notin> set ([]::nat list)
        \<and> is_src_attr h \<and> g \<noteq> [] \<and> 34 \<notin> set g" by (simp add: is_src_attr_iff)
  then show "src_after s 0 g" unfolding src_after_def by blast
qed

lemma src_after_Suc: "src_after (c # cs) (Suc k) g \<longleftrightarrow> c \<noteq> 62 \<and> src_after cs k g"
proof
  assume "src_after (c # cs) (Suc k) g"
  then obtain mid attr post where s: "c # cs = mid @ attr @ g @ 34 # post"
    and m: "length mid = Suc k" "62 \<notin> set mid"
    and r: "is_src_attr attr" "g \<noteq> []" "34 \<notin> set g"
    unfolding src_after_def by blast
  from m(1) obtain c' mid' where mid: "mid = c' # mid'" by (cases mid) auto
  with s m have "c' = c" "cs = mid' @ attr @ g @ 34 # post" "length mid' = k" "62 \<notin> set mid'" "c \<noteq> 62"
    by auto
  with r show "c \<noteq> 62 \<and> src_after cs k g" unfolding src_after_def by blast
next
  assume "c \<noteq> 62 \<and> src_after cs k g"
  then obtain mid attr post where "c \<noteq> 62" "cs = mid @ attr @ g @ 34 # post"
    "length mid = k" "62 \<notin> set mid" and r: "is_src_attr attr" "g \<noteq> []" "34 \<notin> set g"
    unfolding src_after_def by blast
  then have "c # cs = (c # mid) @ attr @ g @ 34 # post \<and> length (c # mid) = Suc k
      \<and> 62 \<notin> set (c # mid)" by simp
  with r show "src_after (c # cs) (Suc k) g" unfolding src_after_def by blast
qed

lemma src_after_unique: "src_after s k g \<Longrightarrow> src_after s k g' \<Longrightarrow> g = g'"
proof (induction k arbitrary: s)
  case 0
  then show ?case by (simp add: src_after_0)
next
  case (Suc k)
  then show ?case by (cases s) (auto simp: src_after_Nil src_after_Suc)
qed

text \<open>
  The greedy run: \<open>img_tail\<close> fails exactly when nothing follows, and what it returns is the
  value after the longest run.
\<close>

lemma img_tail_spec:
  "(img_tail s = None \<longrightarrow> (\<forall>k g. \<not> src_after s k g))
   \<and> (\<forall>g. img_tail s = Some g \<longrightarrow>
          (\<exists>k. src_after s k g \<and> (\<forall>k' g'. src_after s k' g' \<longrightarrow> k' \<le> k)))"
proof (induction s)
  case Nil
  then show ?case by (simp add: src_after_Nil)
next
  case (Cons c cs)
  let ?z = "if ci_prefix (ustr ''src='' @ [34]) (c # cs) then src_value (drop 5 (c # cs)) else None"
  have z: "src_after (c # cs) 0 g \<longleftrightarrow> ?z = Some g" for g
    by (simp only: src_after_0) (simp split: if_splits)
  show ?case
  proof (cases "c \<noteq> 62 \<and> img_tail cs \<noteq> None")
    case True
    then obtain g0 where g0: "img_tail cs = Some g0" and c: "c \<noteq> 62" by auto
    with Cons.IH obtain k where k: "src_after cs k g0"
      and mx: "\<forall>k' g'. src_after cs k' g' \<longrightarrow> k' \<le> k" by blast
    have t: "img_tail (c # cs) = Some g0" using g0 c by simp
    have 1: "src_after (c # cs) (Suc k) g0" using k c by (simp add: src_after_Suc)
    have 2: "k' \<le> Suc k" if "src_after (c # cs) k' g'" for k' g'
    proof (cases k')
      case 0
      then show ?thesis by simp
    next
      case (Suc j)
      with that have "src_after cs j g'" by (simp add: src_after_Suc)
      with mx have "j \<le> k" by blast
      with Suc show ?thesis by simp
    qed
    from 1 2 t show ?thesis by auto
  next
    case False
    then have t: "img_tail (c # cs) = ?z" by (auto split: option.splits)
    have no: "\<not> src_after (c # cs) (Suc j) g" for j g
    proof (cases "c = 62")
      case True
      then show ?thesis by (simp add: src_after_Suc)
    next
      case c: False
      with False have "img_tail cs = None" by simp
      with Cons.IH show ?thesis by (simp add: src_after_Suc)
    qed
    have only0: "k' = 0" if "src_after (c # cs) k' g'" for k' g'
      using that no by (cases k') auto
    have a: "\<forall>k g. \<not> src_after (c # cs) k g" if "?z = None"
    proof (intro allI notI)
      fix k g assume s: "src_after (c # cs) k g"
      with only0 have "k = 0" by blast
      with s z that show False by simp
    qed
    have b: "\<exists>k. src_after (c # cs) k g \<and> (\<forall>k' g'. src_after (c # cs) k' g' \<longrightarrow> k' \<le> k)"
      if "?z = Some g" for g
    proof -
      from that z have "src_after (c # cs) 0 g" by simp
      moreover have "\<forall>k' g'. src_after (c # cs) k' g' \<longrightarrow> k' \<le> 0" using only0 by auto
      ultimately show ?thesis by blast
    qed
    from a b show ?thesis unfolding t by blast
  qed
qed

lemma img_src_at_Nil: "\<not> img_src_at [] i k g"
  by (simp add: img_src_at_def)

lemma img_src_at_src_after:
  "img_src_at s i k g \<longleftrightarrow>
     0 < k \<and> (\<exists>pre tag rest. s = pre @ tag @ rest \<and> length pre = i \<and> is_img_tag tag
                \<and> src_after rest k g)"
proof
  assume "img_src_at s i k g"
  then obtain pre tag mid attr post where s: "s = pre @ tag @ mid @ attr @ g @ 34 # post"
    and p: "length pre = i" "is_img_tag tag" and m: "length mid = k" "mid \<noteq> []"
    and r: "62 \<notin> set mid" "is_src_attr attr" "g \<noteq> []" "34 \<notin> set g"
    unfolding img_src_at_def by blast
  from m have k: "0 < k" by auto
  from m(1) r have "src_after (mid @ attr @ g @ 34 # post) k g"
    unfolding src_after_def by blast
  with s p k show "0 < k \<and> (\<exists>pre tag rest. s = pre @ tag @ rest \<and> length pre = i
      \<and> is_img_tag tag \<and> src_after rest k g)" by blast
next
  assume "0 < k \<and> (\<exists>pre tag rest. s = pre @ tag @ rest \<and> length pre = i \<and> is_img_tag tag
                \<and> src_after rest k g)"
  then obtain pre tag rest where k: "0 < k" and s: "s = pre @ tag @ rest"
    and p: "length pre = i" "is_img_tag tag" and r: "src_after rest k g" by blast
  from r obtain mid attr post where rest: "rest = mid @ attr @ g @ 34 # post"
    and m: "length mid = k" and q: "62 \<notin> set mid" "is_src_attr attr" "g \<noteq> []" "34 \<notin> set g"
    unfolding src_after_def by blast
  from m k have "mid \<noteq> []" by auto
  with s rest p m q show "img_src_at s i k g" unfolding img_src_at_def by blast
qed

lemma img_src_at_0:
  "img_src_at s 0 k g \<longleftrightarrow> ci_prefix (ustr ''<img'') s \<and> 0 < k \<and> src_after (drop 4 s) k g"
proof
  assume "img_src_at s 0 k g"
  then obtain tag rest where k: "0 < k" and s: "s = tag @ rest" and t: "is_img_tag tag"
    and r: "src_after rest k g"
    unfolding img_src_at_src_after by auto
  from t have l: "map lower tag = ustr ''<img''" by (simp add: is_img_tag_iff)
  then have len: "length tag = 4" by (metis length_map length_img_tag)
  have "ci_prefix (ustr ''<img'') s" unfolding s using l by (rule ci_prefixI)
  moreover have "drop 4 s = rest" unfolding s using len by simp
  ultimately show "ci_prefix (ustr ''<img'') s \<and> 0 < k \<and> src_after (drop 4 s) k g"
    using k r by simp
next
  assume *: "ci_prefix (ustr ''<img'') s \<and> 0 < k \<and> src_after (drop 4 s) k g"
  define d where "d = drop 4 s"
  from * have p: "ci_prefix (ustr ''<img'') s" and k: "0 < k" and r: "src_after d k g"
    unfolding d_def by blast+
  from ci_prefixD [OF p] obtain tag where "s = tag @ d"
    and "map lower tag = ustr ''<img''" unfolding length_img_tag d_def by blast
  then have "s = [] @ tag @ d \<and> length ([]::nat list) = 0 \<and> is_img_tag tag"
    by (simp add: is_img_tag_iff)
  with k r show "img_src_at s 0 k g" unfolding img_src_at_src_after by blast
qed

lemma img_src_at_Suc: "img_src_at (c # cs) (Suc i) k g \<longleftrightarrow> img_src_at cs i k g"
proof
  assume "img_src_at (c # cs) (Suc i) k g"
  then obtain pre tag rest where k: "0 < k" and s: "c # cs = pre @ tag @ rest"
    and p: "length pre = Suc i" and r: "is_img_tag tag" "src_after rest k g"
    unfolding img_src_at_src_after by blast
  from p obtain c' pre' where "pre = c' # pre'" by (cases pre) auto
  with s p have "cs = pre' @ tag @ rest" "length pre' = i" by auto
  with k r show "img_src_at cs i k g" unfolding img_src_at_src_after by blast
next
  assume "img_src_at cs i k g"
  then obtain pre tag rest where k: "0 < k" and s: "cs = pre @ tag @ rest"
    and p: "length pre = i" and r: "is_img_tag tag" "src_after rest k g"
    unfolding img_src_at_src_after by blast
  then have "c # cs = (c # pre) @ tag @ rest \<and> length (c # pre) = Suc i" by simp
  with k r show "img_src_at (c # cs) (Suc i) k g" unfolding img_src_at_src_after by blast
qed

lemma img_src_at_unique: "img_src_at s i k g \<Longrightarrow> img_src_at s i k g' \<Longrightarrow> g = g'"
proof (induction i arbitrary: s)
  case 0
  then show ?case using src_after_unique by (auto simp: img_src_at_0)
next
  case (Suc i)
  then show ?case by (cases s) (auto simp: img_src_at_Nil img_src_at_Suc)
qed

lemma img_match_here_spec:
  "(img_match_here s = None \<longrightarrow> (\<forall>k g. \<not> img_src_at s 0 k g))
   \<and> (\<forall>g. img_match_here s = Some g \<longrightarrow>
          (\<exists>k. img_src_at s 0 k g \<and> (\<forall>k' g'. img_src_at s 0 k' g' \<longrightarrow> k' \<le> k)))"
proof (cases "ci_prefix (ustr ''<img'') s")
  case False
  then show ?thesis by (simp add: img_match_here_def img_src_at_0)
next
  case p: True
  show ?thesis
  proof (cases "drop 4 s")
    case Nil
    with p show ?thesis by (simp add: img_match_here_def img_src_at_0 src_after_Nil)
  next
    case (Cons c cs)
    have at: "img_src_at s 0 k g \<longleftrightarrow> (\<exists>j. k = Suc j \<and> c \<noteq> 62 \<and> src_after cs j g)" for k g
      unfolding img_src_at_0 Cons using p by (cases k) (auto simp: src_after_Suc)
    show ?thesis
    proof (cases "c = 62")
      case True
      with p Cons show ?thesis by (simp add: img_match_here_def at)
    next
      case c: False
      with p Cons have m: "img_match_here s = img_tail cs" by (simp add: img_match_here_def)
      have a: "\<forall>k g. \<not> img_src_at s 0 k g" if "img_tail cs = None"
        using that img_tail_spec [of cs] by (simp add: at)
      have b: "\<exists>k. img_src_at s 0 k g \<and> (\<forall>k' g'. img_src_at s 0 k' g' \<longrightarrow> k' \<le> k)"
        if "img_tail cs = Some g" for g
      proof -
        from that img_tail_spec [of cs] obtain j where j: "src_after cs j g"
          and mx: "\<forall>k' g'. src_after cs k' g' \<longrightarrow> k' \<le> j" by blast
        have "img_src_at s 0 (Suc j) g" using j c by (simp add: at)
        moreover have "\<forall>k' g'. img_src_at s 0 k' g' \<longrightarrow> k' \<le> Suc j"
          using mx by (auto simp: at)
        ultimately show ?thesis by blast
      qed
      from a b show ?thesis unfolding m by blast
    qed
  qed
qed

text \<open>
  The search: it fails exactly when the text holds no occurrence, and what it returns is
  the group of the pattern, which is unique.
\<close>

lemma img_search_spec:
  "(img_search s = None \<longrightarrow> (\<forall>i k g. \<not> img_src_at s i k g))
   \<and> (\<forall>g. img_search s = Some g \<longrightarrow> pattern_group s g)"
proof (induction s)
  case Nil
  then show ?case by (simp add: img_src_at_Nil)
next
  case (Cons c cs)
  show ?case
  proof (cases "img_match_here (c # cs)")
    case (Some g0)
    then have s: "img_search (c # cs) = Some g0" by simp
    from Some img_match_here_spec [of "c # cs"] obtain k where k: "img_src_at (c # cs) 0 k g0"
      and mx: "\<forall>k' g'. img_src_at (c # cs) 0 k' g' \<longrightarrow> k' \<le> k" by blast
    have "\<forall>i' k' g'. img_src_at (c # cs) i' k' g' \<longrightarrow> 0 < i' \<or> (i' = 0 \<and> k' \<le> k)"
      using mx by auto
    with k have "pattern_group (c # cs) g0" unfolding pattern_group_def by blast
    with s show ?thesis by simp
  next
    case None
    then have s: "img_search (c # cs) = img_search cs" by simp
    from None img_match_here_spec [of "c # cs"]
    have no0: "\<not> img_src_at (c # cs) 0 k g" for k g by blast
    have sh: "img_src_at (c # cs) i k g \<longleftrightarrow> (\<exists>j. i = Suc j \<and> img_src_at cs j k g)" for i k g
      using no0 by (cases i) (auto simp: img_src_at_Suc)
    have a: "\<forall>i k g. \<not> img_src_at (c # cs) i k g" if "img_search cs = None"
      using that Cons.IH by (simp add: sh)
    have b: "pattern_group (c # cs) g" if "img_search cs = Some g" for g
    proof -
      from that Cons.IH have "pattern_group cs g" by blast
      then obtain i k where ik: "img_src_at cs i k g"
        and mn: "\<forall>i' k' g'. img_src_at cs i' k' g' \<longrightarrow> i < i' \<or> (i' = i \<and> k' \<le> k)"
        unfolding pattern_group_def by blast
      have "img_src_at (c # cs) (Suc i) k g" using ik by (simp add: sh)
      moreover have "\<forall>i' k' g'. img_src_at (c # cs) i' k' g' \<longrightarrow> Suc i < i' \<or> (i' = Suc i \<and> k' \<le> k)"
        using mn by (auto simp: sh)
      ultimately show ?thesis unfolding pattern_group_def by blast
    qed
    from a b show ?thesis unfolding s by blast
  qed
qed

lemma pattern_group_unique:
  assumes "pattern_group s g" and "pattern_group s g'"
  shows "g = g'"
proof -
  from assms(1) obtain i k where a: "img_src_at s i k g"
    and mn: "\<forall>i' k' g'. img_src_at s i' k' g' \<longrightarrow> i < i' \<or> (i' = i \<and> k' \<le> k)"
    unfolding pattern_group_def by blast
  from assms(2) obtain j l where b: "img_src_at s j l g'"
    and mn': "\<forall>i' k' g'. img_src_at s i' k' g' \<longrightarrow> j < i' \<or> (i' = j \<and> k' \<le> l)"
    unfolding pattern_group_def by blast
  from mn b have 1: "i < j \<or> (j = i \<and> l \<le> k)" by blast
  from mn' a have 2: "j < i \<or> (i = j \<and> k \<le> l)" by blast
  from 1 2 have "i = j" "k = l" by auto
  with a b show ?thesis using img_src_at_unique by blast
qed

lemma img_search_Some_iff_group: "img_search s = Some g \<longleftrightarrow> pattern_group s g"
proof
  assume "img_search s = Some g"
  with img_search_spec [of s] show "pattern_group s g" by blast
next
  assume g: "pattern_group s g"
  then have "\<exists>i k. img_src_at s i k g" unfolding pattern_group_def by blast
  with img_search_spec [of s] have "img_search s \<noteq> None" by blast
  then obtain g' where g': "img_search s = Some g'" by auto
  with img_search_spec [of s] have "pattern_group s g'" by blast
  with g have "g = g'" by (rule pattern_group_unique)
  with g' show "img_search s = Some g" by simp
qed

lemma img_search_None_iff: "img_search s = None \<longleftrightarrow> (\<forall>i k g. \<not> img_src_at s i k g)"
proof
  assume "img_search s = None"
  with img_search_spec [of s] show "\<forall>i k g. \<not> img_src_at s i k g" by blast
next
  assume no: "\<forall>i k g. \<not> img_src_at s i k g"
  show "img_search s = None"
  proof (rule ccontr)
    assume "img_search s \<noteq> None"
    then obtain g where "img_search s = Some g" by auto
    with img_search_spec [of s] have "pattern_group s g" by blast
    with no show False unfolding pattern_group_def by blast
  qed
qed

lemma pattern_group_nonempty: "pattern_group s g \<Longrightarrow> g \<noteq> []"
  unfolding pattern_group_def img_src_at_def by blast

lemma img_search_nonempty: "img_search s = Some g \<Longrightarrow> g \<noteq> []"
  using img_search_Some_iff_group pattern_group_nonempty by blast

text \<open>The chain, step by step.\<close>

lemma pickImage_refs:
  "pickImage item =
     (case image_ref (opt_prop item (ustr ''enclosure'')) of Some v \<Rightarrow> v | None \<Rightarrow>
       (case image_ref (opt_prop item (ustr ''mediaContent'')) of Some v \<Rightarrow> v | None \<Rightarrow>
         (case image_ref (opt_prop item (ustr ''mediaThumbnail'')) of Some v \<Rightarrow> v | None \<Rightarrow>
           (let html = (if truthy (opt_prop item (ustr ''content:encoded''))
                        then opt_prop item (ustr ''content:encoded'')
                        else opt_prop item (ustr ''content''))
            in if truthy html
               then (case img_search (js_String html) of Some g \<Rightarrow> JStr g | None \<Rightarrow> JNull)
               else JNull))))"
proof -
  have g: "(case img_search x of Some g \<Rightarrow> if g \<noteq> [] then JStr g else JNull | None \<Rightarrow> JNull)
         = (case img_search x of Some g \<Rightarrow> JStr g | None \<Rightarrow> JNull)" for x
    by (auto split: option.splits dest: img_search_nonempty)
  show ?thesis
    unfolding pickImage_def Let_def g image_ref_def js_or_def by simp
qed

lemma pickImage_body:
  assumes "image_ref (opt_prop item (ustr ''enclosure'')) = None"
    and "image_ref (opt_prop item (ustr ''mediaContent'')) = None"
    and "image_ref (opt_prop item (ustr ''mediaThumbnail'')) = None"
    and "html = (if truthy (opt_prop item (ustr ''content:encoded''))
                 then opt_prop item (ustr ''content:encoded'')
                 else opt_prop item (ustr ''content''))"
  shows "(\<forall>g. pickImage item = JStr g \<longleftrightarrow> truthy html \<and> pattern_group (js_String html) g)
       \<and> (pickImage item = JNull \<longleftrightarrow>
            \<not> truthy html \<or> (\<forall>i k g. \<not> img_src_at (js_String html) i k g))"
proof -
  have p: "pickImage item =
      (if truthy html
       then (case img_search (js_String html) of Some g \<Rightarrow> JStr g | None \<Rightarrow> JNull)
       else JNull)"
    unfolding pickImage_refs assms(1,2,3) Let_def assms(4) by simp
  show ?thesis
  proof (cases "truthy html")
    case False
    with p show ?thesis by simp
  next
    case True
    show ?thesis
    proof (cases "img_search (js_String html)")
      case None
      then have "\<forall>i k g. \<not> img_src_at (js_String html) i k g" by (simp add: img_search_None_iff)
      moreover from this have "\<not> pattern_group (js_String html) g" for g
        unfolding pattern_group_def by blast
      ultimately show ?thesis using p True None by simp
    next
      case (Some g0)
      then have g0: "pattern_group (js_String html) g0" by (simp add: img_search_Some_iff_group)
      then have "\<exists>i k g. img_src_at (js_String html) i k g" unfolding pattern_group_def by blast
      moreover have "pattern_group (js_String html) g \<longleftrightarrow> g = g0" for g
        using g0 pattern_group_unique by blast
      ultimately show ?thesis using p True Some by auto
    qed
  qed
qed

text \<open>
  Claim C9, as amended. \<open>image_url\<close> is what the first yielding step of a fixed chain
  yields, and no later step is attempted: the \<open>enclosure\<close>, then \<open>mediaContent\<close>, then
  \<open>mediaThumbnail\<close> (each yields the value itself when it is a string, else its \<open>url\<close>
  member when truthy), then the pattern, applied once to \<open>content:encoded\<close> or, when that is
  falsy, to \<open>content\<close>; else \<open>null\<close>. The pattern yields the value \<open>g\<close> of the leftmost
  \<^verbatim>\<open><img\<close>, in either case of its letters, that is followed by at least one character
  and no \<^verbatim>\<open>>\<close> up to \<^verbatim>\<open>src="g"\<close>, with \<open>g\<close> not empty and without a quote; of the
  attributes of that stretch that end so, it is the last one (the longest run), not the
  first. It yields nothing exactly when the body has no such occurrence. An enclosure with a
  URL wins over anything in \<open>mediaThumbnail\<close>.
\<close>

theorem pickImage_chain_and_pattern:
  "(\<forall>v. image_ref (opt_prop item (ustr ''enclosure'')) = Some v \<longrightarrow> pickImage item = v)
 \<and> (\<forall>v. image_ref (opt_prop item (ustr ''enclosure'')) = None
        \<and> image_ref (opt_prop item (ustr ''mediaContent'')) = Some v \<longrightarrow> pickImage item = v)
 \<and> (\<forall>v. image_ref (opt_prop item (ustr ''enclosure'')) = None
        \<and> image_ref (opt_prop item (ustr ''mediaContent'')) = None
        \<and> image_ref (opt_prop item (ustr ''mediaThumbnail'')) = Some v \<longrightarrow> pickImage item = v)
 \<and> (image_ref (opt_prop item (ustr ''enclosure'')) = None
      \<and> image_ref (opt_prop item (ustr ''mediaContent'')) = None
      \<and> image_ref (opt_prop item (ustr ''mediaThumbnail'')) = None \<longrightarrow>
      (let html = (if truthy (opt_prop item (ustr ''content:encoded''))
                   then opt_prop item (ustr ''content:encoded'')
                   else opt_prop item (ustr ''content''))
       in (\<forall>g. pickImage item = JStr g \<longleftrightarrow> truthy html \<and> pattern_group (js_String html) g)
        \<and> (pickImage item = JNull \<longleftrightarrow>
             \<not> truthy html \<or> (\<forall>i k g. \<not> img_src_at (js_String html) i k g))))
 \<and> (\<forall>u. opt_prop (opt_prop item (ustr ''enclosure'')) (ustr ''url'') = JStr u \<and> u \<noteq> []
        \<longrightarrow> pickImage item = JStr u)"
proof -
  have 1: "\<forall>v. image_ref (opt_prop item (ustr ''enclosure'')) = Some v \<longrightarrow> pickImage item = v"
    by (simp add: pickImage_refs)
  have 2: "\<forall>v. image_ref (opt_prop item (ustr ''enclosure'')) = None
        \<and> image_ref (opt_prop item (ustr ''mediaContent'')) = Some v \<longrightarrow> pickImage item = v"
    by (simp add: pickImage_refs)
  have 3: "\<forall>v. image_ref (opt_prop item (ustr ''enclosure'')) = None
        \<and> image_ref (opt_prop item (ustr ''mediaContent'')) = None
        \<and> image_ref (opt_prop item (ustr ''mediaThumbnail'')) = Some v \<longrightarrow> pickImage item = v"
    by (simp add: pickImage_refs)
  have 4: "image_ref (opt_prop item (ustr ''enclosure'')) = None
      \<and> image_ref (opt_prop item (ustr ''mediaContent'')) = None
      \<and> image_ref (opt_prop item (ustr ''mediaThumbnail'')) = None \<longrightarrow>
      (let html = (if truthy (opt_prop item (ustr ''content:encoded''))
                   then opt_prop item (ustr ''content:encoded'')
                   else opt_prop item (ustr ''content''))
       in (\<forall>g. pickImage item = JStr g \<longleftrightarrow> truthy html \<and> pattern_group (js_String html) g)
        \<and> (pickImage item = JNull \<longleftrightarrow>
             \<not> truthy html \<or> (\<forall>i k g. \<not> img_src_at (js_String html) i k g)))"
    unfolding Let_def using pickImage_body [of item, OF _ _ _ refl] by blast
  have 5: "\<forall>u. opt_prop (opt_prop item (ustr ''enclosure'')) (ustr ''url'') = JStr u \<and> u \<noteq> []
        \<longrightarrow> pickImage item = JStr u"
  proof (intro allI impI)
    fix u
    assume u: "opt_prop (opt_prop item (ustr ''enclosure'')) (ustr ''url'') = JStr u \<and> u \<noteq> []"
    then have "\<not> is_string (opt_prop item (ustr ''enclosure''))"
      by (cases "opt_prop item (ustr ''enclosure'')") (auto simp: ustr_def)
    with u show "pickImage item = JStr u" by (simp add: pickImage_def Let_def)
  qed
  from 1 2 3 4 5 show ?thesis by blast
qed

text \<open>
  An enclosure URL beside a thumbnail URL; a thumbnail beside images in the body; the body
  with two tags as \<open>content:encoded\<close>, beside another image in \<open>content\<close>: the first tag is
  found although in capitals, and its last attribute is taken; a tag whose value has no
  quotes yields nothing.
\<close>

theorem pickImage_chain_and_pattern_witness:
  "pickImage (JObj [(ustr ''enclosure'', JObj [(ustr ''url'', JStr (ustr ''e.png''))]),
                    (ustr ''mediaThumbnail'', JObj [(ustr ''url'', JStr (ustr ''t.png''))])])
     = JStr (ustr ''e.png'')
   \<and> pickImage (JObj [(ustr ''mediaThumbnail'', JStr (ustr ''t.png'')),
                      (ustr ''content'', JStr body_two_tags)])
     = JStr (ustr ''t.png'')
   \<and> pickImage (JObj [(ustr ''content:encoded'', JStr body_two_tags),
                      (ustr ''content'', JStr (ustr ''<img src='' @ [34] @ ustr ''d.png'' @ [34] @ ustr ''>''))])
     = JStr (ustr ''b.png'')
   \<and> pattern_group body_two_tags (ustr ''b.png'')
   \<and> pickImage (JObj [(ustr ''content'', JStr (ustr ''<img src=a.png>''))]) = JNull"
proof -
  let ?i1 = "JObj [(ustr ''enclosure'', JObj [(ustr ''url'', JStr (ustr ''e.png''))]),
                   (ustr ''mediaThumbnail'', JObj [(ustr ''url'', JStr (ustr ''t.png''))])]"
  let ?i2 = "JObj [(ustr ''mediaThumbnail'', JStr (ustr ''t.png'')),
                   (ustr ''content'', JStr body_two_tags)]"
  let ?i3 = "JObj [(ustr ''content:encoded'', JStr body_two_tags),
                   (ustr ''content'', JStr (ustr ''<img src='' @ [34] @ ustr ''d.png'' @ [34] @ ustr ''>''))]"
  let ?i4 = "JObj [(ustr ''content'', JStr (ustr ''<img src=a.png>''))]"
  have 1: "pickImage ?i1 = JStr (ustr ''e.png'')"
    using pickImage_chain_and_pattern [of ?i1] by (simp add: ustr_def)
  have 2: "pickImage ?i2 = JStr (ustr ''t.png'')"
    using pickImage_chain_and_pattern [of ?i2] by (simp add: image_ref_def ustr_def)
  have 3: "pickImage ?i3 = JStr (ustr ''b.png'')"
    by (simp add: pickImage_def js_or_def img_match_here_def ci_prefix_def src_value_def
          ustr_def lower_def body_two_tags_def)
  have "body_two_tags \<noteq> []" by (simp add: body_two_tags_def ustr_def)
  with 3 pickImage_chain_and_pattern [of ?i3]
  have 4: "pattern_group body_two_tags (ustr ''b.png'')"
    by (auto simp: image_ref_def ustr_def)
  have 5: "pickImage ?i4 = JNull"
    by (simp add: pickImage_def js_or_def img_match_here_def ci_prefix_def src_value_def
          ustr_def lower_def)
  from 1 2 3 4 5 show ?thesis by blast
qed

text \<open>
  Claim C9 as stated fails on the last step: of a tag with \<open>src\<close> and then \<open>data-src\<close>, as
  lazy loading writes them, the pattern yields the second value, not the first \<open>src\<close>.
\<close>

theorem pickImage_last_src_counterexample:
  "pickImage (JObj [(ustr ''content'',
       JStr (ustr ''<img src='' @ [34] @ ustr ''a.png'' @ [34] @ ustr '' data-src='' @ [34]
             @ ustr ''b.png'' @ [34] @ ustr ''>''))])
   = JStr (ustr ''b.png'')"
  by (simp add: pickImage_def js_or_def img_match_here_def ci_prefix_def src_value_def
        ustr_def lower_def)

section \<open>The feed fetcher: three attempts and their delays\<close>

text \<open>
  What \<open>parseWithRetry(url, 3)\<close> does, for every network: it stops at the first answer;
  it asks at most three times, one request after the other; before the second request it
  waits 2000 ms and before the third 3000 ms; after three rejections it throws the third
  error.
\<close>

lemma parseWithRetry_three:
  "parseWithRetry E url 3 w =
     (case parseURL E url (requests w) of
        Inr f \<Rightarrow>
          (Inr f, w\<lparr>requests := requests w + 1, trace := trace w @ [ParseURL url]\<rparr>)
      | Inl e1 \<Rightarrow>
          (case parseURL E url (requests w + 1) of
             Inr f \<Rightarrow>
               (Inr f, w\<lparr>requests := requests w + 2,
                         trace := trace w @ [ParseURL url, Sleep 2000, ParseURL url]\<rparr>)
           | Inl e2 \<Rightarrow>
               (case parseURL E url (requests w + 2) of
                  Inr f \<Rightarrow>
                    (Inr f, w\<lparr>requests := requests w + 3,
                              trace := trace w @ [ParseURL url, Sleep 2000, ParseURL url,
                                                  Sleep 3000, ParseURL url]\<rparr>)
                | Inl e3 \<Rightarrow>
                    (Inl (Some e3),
                     w\<lparr>requests := requests w + 3,
                       trace := trace w @ [ParseURL url, Sleep 2000, ParseURL url,
                                           Sleep 3000, ParseURL url]\<rparr>))))"
proof -
  have 3: "parseWithRetry_from E url 3 3 le v =
      (case parseURL E url (requests v) of
         Inr f \<Rightarrow> (Inr f, v\<lparr>requests := requests v + 1,
                              trace := trace v @ [Sleep 3000, ParseURL url]\<rparr>)
       | Inl e \<Rightarrow> (Inl (Some e), v\<lparr>requests := requests v + 1,
                                     trace := trace v @ [Sleep 3000, ParseURL url]\<rparr>))" for le v
    by (subst parseWithRetry_from.simps) (simp add: Let_def split: sum.splits)
  have 2: "parseWithRetry_from E url 3 2 le v =
      (case parseURL E url (requests v) of
         Inr f \<Rightarrow> (Inr f, v\<lparr>requests := requests v + 1,
                              trace := trace v @ [Sleep 2000, ParseURL url]\<rparr>)
       | Inl e \<Rightarrow> parseWithRetry_from E url 3 3 (Some e)
                    (v\<lparr>requests := requests v + 1,
                       trace := trace v @ [Sleep 2000, ParseURL url]\<rparr>))" for le v
    by (subst parseWithRetry_from.simps) (simp add: Let_def split: sum.splits)
  have 1: "parseWithRetry_from E url 3 1 le v =
      (case parseURL E url (requests v) of
         Inr f \<Rightarrow> (Inr f, v\<lparr>requests := requests v + 1,
                              trace := trace v @ [ParseURL url]\<rparr>)
       | Inl e \<Rightarrow> parseWithRetry_from E url 3 2 (Some e)
                    (v\<lparr>requests := requests v + 1,
                       trace := trace v @ [ParseURL url]\<rparr>))" for le v
    by (subst parseWithRetry_from.simps) (simp add: Let_def numeral_2_eq_2 split: sum.splits)
  show ?thesis
    unfolding parseWithRetry_def 1 2 3
    by (simp split: sum.splits)
qed

lemma parseWithRetry_three_trace:
  assumes "parseWithRetry E url 3 w = (r, w1)"
  shows "\<exists>evs. trace w1 = trace w @ ParseURL url # evs"
  using assms unfolding parseWithRetry_three
  by (auto split: sum.splits)

lemma parseWithRetry_three_error:
  assumes "parseWithRetry E url 3 w = (Inl err, w1)"
  shows "\<exists>e. err = Some e"
  using assms unfolding parseWithRetry_three
  by (auto split: sum.splits)

text \<open>
  Claim C3 says the waits are 1 time unit before attempt 2 and 2 before attempt 3, as
  the comment over \<open>parseWithRetry\<close> does (\<open>1s, 2s, 3s\<close>; \<open>fetchPreview.js\<close> sets the
  same comment beside \<open>1000 * i\<close>). On a feed that never answers the fetcher makes its
  three sequential requests and throws the last error, but it waits \<open>1000 * i\<close>
  milliseconds with \<open>i\<close> the number of the attempt: 2000 ms, then 3000 ms.
\<close>

theorem parseWithRetry_waits_2s_then_3s:
  "parseWithRetry sample_ports (ustr ''https://down.example/rss'') 3 world0 =
   (Inl (Some (Error (ustr ''ECONNREFUSED''))),
    \<lparr>requests = 3,
     trace = [ParseURL (ustr ''https://down.example/rss''), Sleep 2000,
              ParseURL (ustr ''https://down.example/rss''), Sleep 3000,
              ParseURL (ustr ''https://down.example/rss'')],
     db = []\<rparr>)"
  by (simp add: parseWithRetry_def parseWithRetry_from.simps sample_ports_def
        sample_parseURL_def world0_def ustr_def)

section \<open>The ingestion runner: one item\<close>

lemma sha1_nonempty: "sha1 P v \<noteq> []"
  using digest_hex_length [of "sha1_digest P (js_String v)"] by (auto simp: sha1_def)

lemma normalizeItem_item_a:
  "normalizeItem P item_a =
     Inr \<lparr> title = ustr ''A'', canonical_url = Some (ustr ''https://example.com/a''),
           url_hash = Some (sha1 P (JStr (ustr ''https://example.com/a''))),
           published_at = None, image_url = JNull, excerpt = None, content_html = None \<rparr>"
  by (simp add: item_a_def normalizeItem_def ustr_def is_ws_def js_trim_def js_or_def
        makeExcerpt_def sanitizeContent_def pickImage_def)

lemma normalizeItem_item_object_title: "normalizeItem P item_object_title = Inl TypeError"
  by (simp add: item_object_title_def normalizeItem_def js_or_def ustr_def)

lemma normalizeItem_item_no_url:
  "normalizeItem P item_no_url =
     Inr \<lparr> title = ustr ''C'', canonical_url = None, url_hash = None,
           published_at = None, image_url = JNull, excerpt = None, content_html = None \<rparr>"
  by (simp add: item_no_url_def normalizeItem_def ustr_def is_ws_def js_trim_def js_or_def
        makeExcerpt_def sanitizeContent_def pickImage_def)

lemma normalizeItem_keys:
  assumes "normalizeItem P raw = Inr n"
  shows "canonical_url n \<noteq> Some [] \<and> url_hash n \<noteq> Some []"
proof -
  from assms obtain u where "canonical_url n = (if u \<noteq> [] then Some u else None)"
    by (auto simp: normalizeItem_def Let_def split: sum.splits)
  then have "canonical_url n \<noteq> Some []" by (auto split: if_splits)
  moreover have "url_hash n \<noteq> Some []"
    using normalizeItem_url_hash [OF assms] sha1_nonempty by (cases "canonical_url n") auto
  ultimately show ?thesis by blast
qed

lemma insertArticle_query:
  assumes "title a \<noteq> []" and "canonical_url a = Some u" and "u \<noteq> []"
    and "url_hash a = Some h" and "h \<noteq> []"
    and "pool_query E (db w) (article_params a u h) = (res, d)"
  shows "insertArticle E a w =
     ((case res of
         Inl e \<Rightarrow> Inl e
       | Inr k \<Rightarrow>
           Inr (if k = 1 then \<lparr>inserted = True, duplicated = False, reason = None\<rparr>
                else if k = 2 then \<lparr>inserted = False, duplicated = True, reason = None\<rparr>
                else \<lparr>inserted = False, duplicated = False,
                      reason = Some (ustr ''unexpected affectedRows='' @ digits k)\<rparr>)),
      w\<lparr>trace := trace w @ [Query (article_params a u h)], db := d\<rparr>)"
  using assms by (simp add: insertArticle_def Let_def split: sum.splits)

lemma saveFeed_item_skip:
  assumes "normalizeItem P raw = Inr n"
    and "canonical_url n = None \<or> url_hash n = None \<or> title n = []"
  shows "saveFeed_item P E raw t w = (Inr (count_skipped t), w)"
  using assms by (auto simp: saveFeed_item_def)

lemma saveFeed_item_submit:
  assumes "normalizeItem P raw = Inr n"
    and "canonical_url n = Some u" and "url_hash n = Some h" and "title n \<noteq> []"
    and "pool_query E (db w) (article_params n u h) = (res, d)"
  shows "saveFeed_item P E raw t w =
           (Inr (case res of
                   Inr k \<Rightarrow> if k = 1 then count_inserted t
                            else if k = 2 then count_duplicated t
                            else count_skipped t
                 | Inl e \<Rightarrow> count_skipped t),
            w\<lparr>trace := trace w @ [Query (article_params n u h)], db := d\<rparr>)"
proof -
  from normalizeItem_keys [OF assms(1)] assms(2,3) have u: "u \<noteq> []" and h: "h \<noteq> []"
    by auto
  note i = insertArticle_query [OF assms(4) assms(2) u assms(3) h assms(5)]
  show ?thesis
    using assms(2-4) u h by (cases res) (simp_all add: saveFeed_item_def assms(1) i)
qed

lemma saveFeed_item_one_counter:
  assumes "normalizeItem P raw = Inr n"
  shows "\<exists>t' w'. saveFeed_item P E raw t w = (Inr t', w')
           \<and> (t' = count_inserted t \<or> t' = count_duplicated t \<or> t' = count_skipped t)"
proof (cases "canonical_url n = None \<or> url_hash n = None \<or> title n = []")
  case True
  from saveFeed_item_skip [OF assms True] show ?thesis by blast
next
  case False
  then obtain u h where uh: "canonical_url n = Some u" "url_hash n = Some h" "title n \<noteq> []"
    by auto
  obtain res d where q: "pool_query E (db w) (article_params n u h) = (res, d)"
    by (cases "pool_query E (db w) (article_params n u h)")
  from saveFeed_item_submit [OF assms uh q, of t] show ?thesis
    by (cases res) auto
qed

text \<open>
  For an item the normalizer turned into an article: when \<open>canonical_url\<close>, \<open>url_hash\<close> or
  \<open>title\<close> is absent the item is counted as skipped and the world is unchanged (no
  statement reaches the store); otherwise exactly one statement is sent, and the answer is
  classified: \<open>affectedRows\<close> 1 counts as inserted, 2 as duplicated, any other number and any
  rejection as skipped. In each of these cases exactly one of the three counters moves, by
  one.
\<close>

lemma saveFeed_item_of_article:
  assumes "normalizeItem P raw = Inr n"
  shows "(canonical_url n = None \<or> url_hash n = None \<or> title n = [] \<longrightarrow>
            saveFeed_item P E raw t w = (Inr (count_skipped t), w))
       \<and> (\<forall>u h res d. canonical_url n = Some u \<and> url_hash n = Some h \<and> title n \<noteq> []
              \<and> pool_query E (db w) (article_params n u h) = (res, d) \<longrightarrow>
            saveFeed_item P E raw t w =
              (Inr (case res of
                      Inr k \<Rightarrow> if k = 1 then count_inserted t
                               else if k = 2 then count_duplicated t
                               else count_skipped t
                    | Inl e \<Rightarrow> count_skipped t),
               w\<lparr>trace := trace w @ [Query (article_params n u h)], db := d\<rparr>))
       \<and> (\<exists>t' w'. saveFeed_item P E raw t w = (Inr t', w')
              \<and> (t' = count_inserted t \<or> t' = count_duplicated t \<or> t' = count_skipped t))"
proof (intro conjI allI impI)
  assume "canonical_url n = None \<or> url_hash n = None \<or> title n = []"
  with assms show "saveFeed_item P E raw t w = (Inr (count_skipped t), w)"
    by (rule saveFeed_item_skip)
next
  fix u h res d
  assume "canonical_url n = Some u \<and> url_hash n = Some h \<and> title n \<noteq> []
            \<and> pool_query E (db w) (article_params n u h) = (res, d)"
  then have "canonical_url n = Some u" "url_hash n = Some h" "title n \<noteq> []"
    "pool_query E (db w) (article_params n u h) = (res, d)" by auto
  with assms show "saveFeed_item P E raw t w =
      (Inr (case res of
              Inr k \<Rightarrow> if k = 1 then count_inserted t
                       else if k = 2 then count_duplicated t
                       else count_skipped t
            | Inl e \<Rightarrow> count_skipped t),
       w\<lparr>trace := trace w @ [Query (article_params n u h)], db := d\<rparr>)"
    by (rule saveFeed_item_submit)
next
  from assms show "\<exists>t' w'. saveFeed_item P E raw t w = (Inr t', w')
      \<and> (t' = count_inserted t \<or> t' = count_duplicated t \<or> t' = count_skipped t)"
    by (rule saveFeed_item_one_counter)
qed

text \<open>
  An item without a URL; a new item; the same item once it is stored.
\<close>

lemma saveFeed_item_of_article_examples:
  "\<forall>P. saveFeed_item P sample_ports item_no_url
          \<lparr>n_inserted = 0, n_duplicated = 0, n_skipped = 0\<rparr> world0
        = (Inr \<lparr>n_inserted = 0, n_duplicated = 0, n_skipped = 1\<rparr>, world0)
      \<and> saveFeed_item P sample_ports item_a
          \<lparr>n_inserted = 0, n_duplicated = 0, n_skipped = 0\<rparr> world0
        = (Inr \<lparr>n_inserted = 1, n_duplicated = 0, n_skipped = 0\<rparr>,
           \<lparr>requests = 0, trace = [Query (row_a P)],
            db = [sha1 P (JStr (ustr ''https://example.com/a''))]\<rparr>)
      \<and> saveFeed_item P sample_ports item_a
          \<lparr>n_inserted = 1, n_duplicated = 0, n_skipped = 0\<rparr>
          \<lparr>requests = 0, trace = [], db = [sha1 P (JStr (ustr ''https://example.com/a''))]\<rparr>
        = (Inr \<lparr>n_inserted = 1, n_duplicated = 1, n_skipped = 0\<rparr>,
           \<lparr>requests = 0, trace = [Query (row_a P)],
            db = [sha1 P (JStr (ustr ''https://example.com/a''))]\<rparr>)"
proof
  fix P
  let ?t0 = "\<lparr>n_inserted = 0, n_duplicated = 0, n_skipped = 0\<rparr>"
  let ?t1 = "\<lparr>n_inserted = 1, n_duplicated = 0, n_skipped = 0\<rparr>"
  let ?h = "sha1 P (JStr (ustr ''https://example.com/a''))"
  let ?w1 = "\<lparr>requests = 0, trace = [], db = [?h]\<rparr>"
  have a: "saveFeed_item P sample_ports item_no_url ?t0 world0
        = (Inr \<lparr>n_inserted = 0, n_duplicated = 0, n_skipped = 1\<rparr>, world0)"
    using saveFeed_item_of_article [OF normalizeItem_item_no_url, of P sample_ports ?t0 world0]
    by (simp add: count_skipped_def)
  have b: "saveFeed_item P sample_ports item_a ?t0 world0
        = (Inr ?t1, \<lparr>requests = 0, trace = [Query (row_a P)], db = [?h]\<rparr>)"
    using saveFeed_item_of_article [OF normalizeItem_item_a, of P sample_ports ?t0 world0]
    by (simp add: count_inserted_def article_params_def row_a_def sample_ports_def
          sample_query_def world0_def js_or_def ustr_def)
  have c: "saveFeed_item P sample_ports item_a ?t1 ?w1
        = (Inr \<lparr>n_inserted = 1, n_duplicated = 1, n_skipped = 0\<rparr>,
           \<lparr>requests = 0, trace = [Query (row_a P)], db = [?h]\<rparr>)"
    using saveFeed_item_of_article [OF normalizeItem_item_a, of P sample_ports ?t1 ?w1]
    by (simp add: count_duplicated_def article_params_def row_a_def sample_ports_def
          sample_query_def js_or_def ustr_def)
  from a b c show "saveFeed_item P sample_ports item_no_url ?t0 world0
        = (Inr \<lparr>n_inserted = 0, n_duplicated = 0, n_skipped = 1\<rparr>, world0)
      \<and> saveFeed_item P sample_ports item_a ?t0 world0
        = (Inr ?t1, \<lparr>requests = 0, trace = [Query (row_a P)], db = [?h]\<rparr>)
      \<and> saveFeed_item P sample_ports item_a ?t1 ?w1
        = (Inr \<lparr>n_inserted = 1, n_duplicated = 1, n_skipped = 0\<rparr>,
           \<lparr>requests = 0, trace = [Query (row_a P)], db = [?h]\<rparr>)"
    by blast
qed

text \<open>
  Claim C5 says every processed item moves exactly one of the three counters. The loop of
  \<open>saveFeed\<close> calls \<open>normalizeItem\<close> before, and outside, the \<open>try\<close> that guards the store
  call. On the item whose title is an object the normalizer throws: the item is neither
  counted as skipped nor submitted, the tally and the world are left as they were, and the
  exception leaves the loop, whatever items follow.
\<close>

theorem saveFeed_item_throw_moves_no_counter:
  "saveFeed_item P E item_object_title t w = (Inl TypeError, w)
   \<and> saveFeed_loop P E (item_object_title # rest) t w = (Inl TypeError, w)"
  by (simp add: saveFeed_item_def normalizeItem_item_object_title)

text \<open>With one article already counted, and a good item next in the feed.\<close>

theorem saveFeed_item_throw_moves_no_counter_witness:
  "\<forall>P. saveFeed_item P sample_ports item_object_title
          \<lparr>n_inserted = 1, n_duplicated = 0, n_skipped = 0\<rparr> world0
        = (Inl TypeError, world0)
      \<and> saveFeed_loop P sample_ports [item_object_title, item_a]
          \<lparr>n_inserted = 1, n_duplicated = 0, n_skipped = 0\<rparr> world0
        = (Inl TypeError, world0)"
  using saveFeed_item_throw_moves_no_counter by blast

section \<open>The ingestion runner: feeds and the run\<close>

lemma saveFeed_item_normalizer_throw:
  "normalizeItem P raw = Inl e \<Longrightarrow> saveFeed_item P E raw t w = (Inl e, w)"
  by (simp add: saveFeed_item_def)

lemma insertArticle_trace:
  assumes "insertArticle E a w = (r, w')"
  shows "\<exists>evs. trace w' = trace w @ evs"
  using assms unfolding insertArticle_def Let_def
  by (auto split: option.splits if_splits prod.splits sum.splits)

lemma saveFeed_item_trace:
  assumes "saveFeed_item P E raw t w = (r, w')"
  shows "\<exists>evs. trace w' = trace w @ evs"
proof (cases "normalizeItem P raw")
  case (Inl e)
  with assms show ?thesis by (simp add: saveFeed_item_def)
next
  case (Inr n)
  show ?thesis
  proof (cases "\<not> str_truthy (canonical_url n) \<or> \<not> str_truthy (url_hash n) \<or> title n = []")
    case True
    with assms Inr show ?thesis by (auto simp: saveFeed_item_def)
  next
    case False
    obtain r1 w1 where i: "insertArticle E n w = (r1, w1)"
      by (cases "insertArticle E n w")
    from False assms Inr i have "w' = w1"
      by (auto simp: saveFeed_item_def split: sum.splits if_splits)
    with insertArticle_trace [OF i] show ?thesis by simp
  qed
qed

lemma saveFeed_loop_trace:
  "saveFeed_loop P E xs t w = (r, w') \<Longrightarrow> \<exists>evs. trace w' = trace w @ evs"
proof (induction xs arbitrary: t w)
  case Nil
  then show ?case by simp
next
  case (Cons raw rest)
  obtain r1 w1 where s: "saveFeed_item P E raw t w = (r1, w1)"
    by (cases "saveFeed_item P E raw t w")
  from saveFeed_item_trace [OF s] obtain evs where e: "trace w1 = trace w @ evs" by blast
  show ?case
  proof (cases r1)
    case (Inl err)
    with Cons.prems s e show ?thesis by auto
  next
    case (Inr t1)
    with Cons.prems s have "saveFeed_loop P E rest t1 w1 = (r, w')" by simp
    from Cons.IH [OF this] e show ?thesis by auto
  qed
qed

text \<open>Every item that the normalizer accepts moves exactly one counter by one.\<close>

lemma saveFeed_loop_counts_every_item:
  assumes "\<forall>raw\<in>set xs. \<exists>n. normalizeItem P raw = Inr n"
  shows "\<exists>t' w'. saveFeed_loop P E xs t w = (Inr t', w')
           \<and> n_inserted t' + n_duplicated t' + n_skipped t'
               = n_inserted t + n_duplicated t + n_skipped t + length xs"
  using assms
proof (induction xs arbitrary: t w)
  case Nil
  then show ?case by simp
next
  case (Cons raw rest)
  then obtain n where n: "normalizeItem P raw = Inr n" by auto
  from saveFeed_item_one_counter [OF n, of E t w] obtain t1 w1 where
    s: "saveFeed_item P E raw t w = (Inr t1, w1)"
    and c: "t1 = count_inserted t \<or> t1 = count_duplicated t \<or> t1 = count_skipped t" by blast
  from c have 1: "n_inserted t1 + n_duplicated t1 + n_skipped t1
                   = n_inserted t + n_duplicated t + n_skipped t + 1"
    by (auto simp: count_inserted_def count_duplicated_def count_skipped_def)
  from Cons.prems have "\<forall>raw\<in>set rest. \<exists>n. normalizeItem P raw = Inr n" by simp
  from Cons.IH [OF this, of t1 w1] obtain t' w' where
    "saveFeed_loop P E rest t1 w1 = (Inr t', w')"
    "n_inserted t' + n_duplicated t' + n_skipped t'
       = n_inserted t1 + n_duplicated t1 + n_skipped t1 + length rest" by blast
  with s 1 show ?case by simp
qed

text \<open>
  An item on which the normalizer throws ends the loop: the handler of the feed reports
  the error with all counters at zero, whatever was stored before.
\<close>

lemma saveFeed_loop_normalizer_throw:
  assumes "\<forall>raw\<in>set pre. \<exists>n. normalizeItem P raw = Inr n"
    and "normalizeItem P bad = Inl e"
  shows "\<exists>w'. saveFeed_loop P E (pre @ bad # post) t w = (Inl e, w')"
  using assms(1)
proof (induction pre arbitrary: t w)
  case Nil
  show ?case by (simp add: saveFeed_item_normalizer_throw [OF assms(2)])
next
  case (Cons raw rest)
  then obtain n where n: "normalizeItem P raw = Inr n" by auto
  from saveFeed_item_one_counter [OF n, of E t w] obtain t1 w1 where
    s: "saveFeed_item P E raw t w = (Inr t1, w1)" by blast
  from Cons.prems have "\<forall>raw\<in>set rest. \<exists>n. normalizeItem P raw = Inr n" by simp
  from Cons.IH [OF this, of t1 w1] s show ?case by simp
qed

lemma saveFeed_normalizer_throw:
  assumes "parseWithRetry E url 3 w = (Inr f, w1)" and "items f = Some (pre @ bad # post)"
    and "\<forall>raw\<in>set pre. \<exists>n. normalizeItem P raw = Inr n"
    and "normalizeItem P bad = Inl e"
  shows "\<exists>w'. saveFeed P E url w =
           (Inr \<lparr>n_inserted = 0, n_duplicated = 0, n_skipped = 0, feed_error = Some e\<rparr>, w')"
proof -
  from saveFeed_loop_normalizer_throw [OF assms(3,4)] obtain w' where
    "saveFeed_loop P E (pre @ bad # post) \<lparr>n_inserted = 0, n_duplicated = 0, n_skipped = 0\<rparr> w1
       = (Inl e, w')" by blast
  with assms(1,2) show ?thesis by (simp add: saveFeed_def)
qed

text \<open>A fetch that fails three times gives the zero tally with the last error.\<close>

lemma saveFeed_fetch_failure:
  assumes "parseWithRetry E url 3 w = (Inl (Some e), w1)"
  shows "saveFeed P E url w =
           (Inr \<lparr>n_inserted = 0, n_duplicated = 0, n_skipped = 0, feed_error = Some e\<rparr>, w1)"
  using assms by (simp add: saveFeed_def)

text \<open>\<open>saveFeed\<close> never throws, and its first effect is the request for its feed.\<close>

lemma saveFeed_returns:
  "\<exists>out w' evs. saveFeed P E url w = (Inr out, w') \<and> trace w' = trace w @ ParseURL url # evs"
proof -
  obtain r w1 where p: "parseWithRetry E url 3 w = (r, w1)"
    by (cases "parseWithRetry E url 3 w")
  from parseWithRetry_three_trace [OF p] obtain evs where
    e: "trace w1 = trace w @ ParseURL url # evs" by blast
  show ?thesis
  proof (cases r)
    case (Inl err)
    with p parseWithRetry_three_error obtain x where "err = Some x" by blast
    with p Inl e show ?thesis by (simp add: saveFeed_def)
  next
    case (Inr f)
    let ?xs = "case items f of Some xs \<Rightarrow> xs | None \<Rightarrow> []"
    obtain r2 w2 where l: "saveFeed_loop P E ?xs
        \<lparr>n_inserted = 0, n_duplicated = 0, n_skipped = 0\<rparr> w1 = (r2, w2)"
      by (cases "saveFeed_loop P E ?xs \<lparr>n_inserted = 0, n_duplicated = 0, n_skipped = 0\<rparr> w1")
    from saveFeed_loop_trace [OF l] e obtain evs' where
      "trace w2 = trace w @ ParseURL url # evs'" by auto
    with p Inr l show ?thesis by (cases r2) (simp_all add: saveFeed_def)
  qed
qed

text \<open>
  The run asks for every configured feed and ends with totals, whatever happened to the
  feeds before it.
\<close>

lemma main_loop_all_feeds:
  "\<exists>tot' w' evs. main_loop P E urls tot w = (Inr tot', w') \<and> trace w' = trace w @ evs
      \<and> ParseURL ` set urls \<subseteq> set evs"
proof (induction urls arbitrary: tot w)
  case Nil
  show ?case by simp
next
  case (Cons url rest)
  from saveFeed_returns [of P E url w] obtain out w1 evs1 where
    s: "saveFeed P E url w = (Inr out, w1)" and e1: "trace w1 = trace w @ ParseURL url # evs1"
    by blast
  let ?tot = "\<lparr>n_inserted = n_inserted tot + n_inserted out,
               n_duplicated = n_duplicated tot + n_duplicated out,
               n_skipped = n_skipped tot + n_skipped out\<rparr>"
  from Cons.IH [of ?tot w1] obtain tot' w' evs where
    m: "main_loop P E rest ?tot w1 = (Inr tot', w')" and e: "trace w' = trace w1 @ evs"
    and sub: "ParseURL ` set rest \<subseteq> set evs" by blast
  have "main_loop P E (url # rest) tot w = (Inr tot', w')" using s m by simp
  moreover have "trace w' = trace w @ (ParseURL url # evs1 @ evs)" using e e1 by simp
  moreover have "ParseURL ` set (url # rest) \<subseteq> set (ParseURL url # evs1 @ evs)"
    using sub by auto
  ultimately show ?case by blast
qed

text \<open>
  The scenario of the specification: a feed that fails twice and answers the third
  request is read, and no error is recorded for it.
\<close>

lemma saveFeed_third_attempt:
  "saveFeed P sample_ports (ustr ''https://flaky.example/rss'') world0 =
     (Inr \<lparr>n_inserted = 1, n_duplicated = 1, n_skipped = 1, feed_error = None\<rparr>,
      \<lparr>requests = 3,
       trace = [ParseURL (ustr ''https://flaky.example/rss''), Sleep 2000,
                ParseURL (ustr ''https://flaky.example/rss''), Sleep 3000,
                ParseURL (ustr ''https://flaky.example/rss''),
                Query (row_a P), Query (row_a P)],
       db = [sha1 P (JStr (ustr ''https://example.com/a''))]\<rparr>)"
proof -
  have f: "parseWithRetry sample_ports (ustr ''https://flaky.example/rss'') 3 world0 =
      (Inr \<lparr>feed_title = JStr (ustr ''News''), items = Some [item_a, item_no_url, item_a]\<rparr>,
       \<lparr>requests = 3,
        trace = [ParseURL (ustr ''https://flaky.example/rss''), Sleep 2000,
                 ParseURL (ustr ''https://flaky.example/rss''), Sleep 3000,
                 ParseURL (ustr ''https://flaky.example/rss'')],
        db = []\<rparr>)"
    unfolding parseWithRetry_three
    by (simp add: sample_ports_def sample_parseURL_def world0_def ustr_def)
  show ?thesis
    unfolding saveFeed_def f
    by (simp add: saveFeed_item_def normalizeItem_item_a normalizeItem_item_no_url insertArticle_def sha1_nonempty
          article_params_def row_a_def sample_ports_def sample_query_def js_or_def
          count_inserted_def count_duplicated_def count_skipped_def ustr_def)
qed

text \<open>
  A run over a feed that is down and a feed that answers: the first is recorded as failed
  with a zero tally, the second is still read, and the totals are those of the second.
\<close>

lemma main_failed_feed_then_good_feed:
  "\<exists>w. main P sample_ports
          [ustr ''https://down.example/rss'', ustr ''https://good.example/rss''] world0
        = (Totals \<lparr>n_inserted = 1, n_duplicated = 1, n_skipped = 1\<rparr>, w)
      \<and> requests w = 4 \<and> db w = [sha1 P (JStr (ustr ''https://example.com/a''))]"
proof -
  let ?w1 = "\<lparr>requests = 3,
              trace = [ParseURL (ustr ''https://down.example/rss''), Sleep 2000,
                       ParseURL (ustr ''https://down.example/rss''), Sleep 3000,
                       ParseURL (ustr ''https://down.example/rss'')],
              db = ([]::jsstring list)\<rparr>"
  have d: "parseWithRetry sample_ports (ustr ''https://down.example/rss'') 3 world0 =
      (Inl (Some (Error (ustr ''ECONNREFUSED''))), ?w1)"
    unfolding parseWithRetry_three
    by (simp add: sample_ports_def sample_parseURL_def world0_def ustr_def)
  have g: "parseWithRetry sample_ports (ustr ''https://good.example/rss'') 3 ?w1 =
      (Inr \<lparr>feed_title = JStr (ustr ''News''), items = Some [item_a, item_no_url, item_a]\<rparr>,
       ?w1\<lparr>requests := 4, trace := trace ?w1 @ [ParseURL (ustr ''https://good.example/rss'')]\<rparr>)"
    unfolding parseWithRetry_three
    by (simp add: sample_ports_def sample_parseURL_def ustr_def)
  have 1: "saveFeed P sample_ports (ustr ''https://down.example/rss'') world0 =
      (Inr \<lparr>n_inserted = 0, n_duplicated = 0, n_skipped = 0,
            feed_error = Some (Error (ustr ''ECONNREFUSED''))\<rparr>, ?w1)"
    using d by (rule saveFeed_fetch_failure)
  have 2: "\<exists>w. saveFeed P sample_ports (ustr ''https://good.example/rss'') ?w1 =
      (Inr \<lparr>n_inserted = 1, n_duplicated = 1, n_skipped = 1, feed_error = None\<rparr>, w)
      \<and> requests w = 4 \<and> db w = [sha1 P (JStr (ustr ''https://example.com/a''))]"
    unfolding saveFeed_def g
    by (simp add: saveFeed_item_def normalizeItem_item_a normalizeItem_item_no_url insertArticle_def sha1_nonempty
          article_params_def sample_ports_def sample_query_def js_or_def
          count_inserted_def count_duplicated_def count_skipped_def ustr_def)
  then obtain w where w: "saveFeed P sample_ports (ustr ''https://good.example/rss'') ?w1 =
      (Inr \<lparr>n_inserted = 1, n_duplicated = 1, n_skipped = 1, feed_error = None\<rparr>, w)"
    "requests w = 4" "db w = [sha1 P (JStr (ustr ''https://example.com/a''))]" by blast
  have "main P sample_ports
          [ustr ''https://down.example/rss'', ustr ''https://good.example/rss''] world0
        = (Totals \<lparr>n_inserted = 1, n_duplicated = 1, n_skipped = 1\<rparr>, w)"
    by (simp add: main_def 1 w(1))
  with w(2,3) show ?thesis by blast
qed

text \<open>
  Claim C6 says failures never escalate from an item to its feed. A rejection by the store
  is indeed caught per item (\<open>saveFeed_item_submit\<close>), and a failed feed never stops the run
  (\<open>saveFeed_returns\<close>, \<open>main_loop_all_feeds\<close>). But \<open>normalizeItem\<close> is called outside the
  \<open>try\<close> that guards the store: on a feed whose second item has an object for a title, the
  first item is stored, the second throws, and the handler of the feed reports an error and
  a tally of zero for the whole feed.
\<close>

theorem saveFeed_item_failure_fails_feed:
  "saveFeed P sample_ports (ustr ''https://odd.example/rss'') world0 =
     (Inr \<lparr>n_inserted = 0, n_duplicated = 0, n_skipped = 0, feed_error = Some TypeError\<rparr>,
      \<lparr>requests = 1,
       trace = [ParseURL (ustr ''https://odd.example/rss''), Query (row_a P)],
       db = [sha1 P (JStr (ustr ''https://example.com/a''))]\<rparr>)"
proof -
  have f: "parseWithRetry sample_ports (ustr ''https://odd.example/rss'') 3 world0 =
      (Inr \<lparr>feed_title = JStr (ustr ''Odd''), items = Some [item_a, item_object_title]\<rparr>,
       \<lparr>requests = 1, trace = [ParseURL (ustr ''https://odd.example/rss'')], db = []\<rparr>)"
    by (simp add: parseWithRetry_def parseWithRetry_from.simps sample_ports_def
          sample_parseURL_def world0_def ustr_def)
  show ?thesis
    unfolding saveFeed_def f
    by (simp add: saveFeed_item_def normalizeItem_item_a normalizeItem_item_object_title insertArticle_def sha1_nonempty
          article_params_def row_a_def sample_ports_def sample_query_def js_or_def
          count_inserted_def ustr_def)
qed

end
